theory Spec2Isabelle
  imports Complex_Main "HOL-Library.Word" "HOL-Library.Sublist"
begin

section \<open>JavaScript values\<close>

text \<open>
  The BREF hierarchy is a JSON document. Its values are modelled by one datatype: an
  object is the list of its own enumerable properties in enumeration order (keys are
  pairwise distinct in a JavaScript object; a lookup reads the first entry of a key).
  A hierarchy node carries an identifier, a name, two boolean annotations and its
  children, so numbers are left out of the value type. A property read that yields
  \<open>undefined\<close> is \<open>None\<close>.
\<close>

datatype json =
    JNull
  | JBool bool
  | JStr string
  | JArr "json list"
  | JObj "(string \<times> json) list"

text \<open>Truthiness of a value, as \<open>if (v)\<close>, \<open>!v\<close> and \<open>v && ...\<close> test it.\<close>

fun truthy :: "json \<Rightarrow> bool" where
  "truthy JNull = False"
| "truthy (JBool b) = b"
| "truthy (JStr s) = (s \<noteq> [])"
| "truthy (JArr xs) = True"
| "truthy (JObj ps) = True"

fun truthy_opt :: "json option \<Rightarrow> bool" where
  "truthy_opt None = False"
| "truthy_opt (Some v) = truthy v"

text \<open>\<open>typeof v === 'object'\<close> (true of \<open>null\<close> too) and \<open>Array.isArray(v)\<close>.\<close>

fun typeof_object :: "json \<Rightarrow> bool" where
  "typeof_object JNull = True"
| "typeof_object (JArr xs) = True"
| "typeof_object (JObj ps) = True"
| "typeof_object v = False"

fun isArray :: "json \<Rightarrow> bool" where
  "isArray (JArr xs) = True"
| "isArray v = False"

text \<open>
  \<open>v.k\<close> for a value \<open>v\<close> that is not \<open>null\<close>, and for the property names the code
  reads (\<open>id\<close>, \<open>name\<close>, \<open>children\<close>, the two annotations): only an object has them.
  Reading a property of \<open>null\<close> throws a TypeError; every call site below that can see
  \<open>null\<close> has that case written out.
\<close>

fun jprop :: "json \<Rightarrow> string \<Rightarrow> json option" where
  "jprop (JObj ps) k = map_of ps k"
| "jprop v k = None"

text \<open>
  The property key a value is coerced to when it indexes an object (\<open>table[v]\<close>):
  ECMAScript ToString. An array joins its elements with commas, \<open>null\<close> elements
  giving the empty string.
\<close>

fun join_comma :: "string list \<Rightarrow> string" where
  "join_comma [] = []"
| "join_comma [s] = s"
| "join_comma (s # t # ss) = s @ '','' @ join_comma (t # ss)"

fun to_key :: "json \<Rightarrow> string" where
  "to_key JNull = ''null''"
| "to_key (JBool b) = (if b then ''true'' else ''false'')"
| "to_key (JStr s) = s"
| "to_key (JArr xs) = join_comma (map (\<lambda>x. if x = JNull then [] else to_key x) xs)"
| "to_key (JObj ps) = ''[object Object]''"

fun key_of :: "json option \<Rightarrow> string" where
  "key_of None = ''undefined''"
| "key_of (Some v) = to_key v"

section \<open>Chat-context sets (dashboard)\<close>

text \<open>
  A patent as the dashboard holds it: the fields of the pre-ranked list, and the
  \<open>relevanceScore\<close> property that the ranking adds (\<open>None\<close> while the property is
  absent). Scores are JSON numbers; they are compared exactly, so they are rationals here.
\<close>

record patent =
  pid :: string
  title :: "string option"
  year :: "int option"
  abstract :: "string option"
  score :: "rat option"
  bref_relevance :: "(string \<times> rat) list option"
  relevanceScore :: "rat option"

record bref_section =
  bid :: string
  bname :: string
  btext :: string

text \<open>\<open>handlePatentToggle\<close>: the state update \<open>prev => ...\<close> applied to the patent-context list.\<close>

definition handlePatentToggle :: "patent \<Rightarrow> patent list \<Rightarrow> patent list" where
  "handlePatentToggle p prev =
     (if list_ex (\<lambda>q. pid q = pid p) prev
      then filter (\<lambda>q. pid q \<noteq> pid p) prev
      else prev @ [p])"

text \<open>
  \<open>handleAddBrefToContext(bref, brefText)\<close>: the added entry is
  \<open>{id: bref.id, name: bref.name || bref.id, text: brefText}\<close>.
\<close>

definition handleAddBrefToContext ::
  "string \<Rightarrow> string option \<Rightarrow> string \<Rightarrow> bref_section list \<Rightarrow> bref_section list" where
  "handleAddBrefToContext bref_id bref_name brefText prev =
     (let brefToAdd = \<lparr> bid = bref_id,
                         bname = (case bref_name of
                                    Some n \<Rightarrow> (if n \<noteq> [] then n else bref_id)
                                  | None \<Rightarrow> bref_id),
                         btext = brefText \<rparr>
      in if list_ex (\<lambda>b. bid b = bref_id) prev then prev else prev @ [brefToAdd])"

section \<open>Chat transcript (ChatInterface)\<close>

text \<open>
  Message texts are JavaScript strings: sequences of UTF-16 code units.
  \<open>String.prototype.trim\<close> strips white space and line terminators from both ends.
\<close>

type_synonym jsstring = "16 word list"

definition utf16 :: "string \<Rightarrow> jsstring" where
  "utf16 s = map (\<lambda>c. of_nat (of_char c)) s"

definition is_white_space :: "16 word \<Rightarrow> bool" where
  "is_white_space c =
     (c \<in> {0x0009, 0x000A, 0x000B, 0x000C, 0x000D, 0x0020, 0x00A0, 0x1680,
            0x2028, 0x2029, 0x202F, 0x205F, 0x3000, 0xFEFF}
      \<or> (0x2000 \<le> c \<and> c \<le> 0x200A))"

definition trim :: "jsstring \<Rightarrow> jsstring" where
  "trim s = rev (dropWhile is_white_space (rev (dropWhile is_white_space s)))"

datatype sender = System | User | Assistant

record message =
  sender :: sender
  mtext :: jsstring

record chat_state =
  messages :: "message list"
  inputMessage :: jsstring
  isLoading :: bool
  error :: "jsstring option"

text \<open>One call of the language-model collaborator: \<open>callOpenAI(userMessage, systemPrompt, chatHistory)\<close>.\<close>

record api_call =
  userMessage :: jsstring
  systemPrompt :: jsstring
  chatHistory :: "message list"

text \<open>
  \<open>callChatAPI\<close>. The collaborator's answer is an input of the model: \<open>Inr\<close> the response
  text, \<open>Inl\<close> the message of the error it threw. \<open>closure_messages\<close> is the transcript
  the handler closed over (the render's value, without the updates queued since).
  The result is the state after the handler and the collaborator calls it made.
\<close>

definition callChatAPI ::
  "jsstring \<Rightarrow> jsstring \<Rightarrow> message list \<Rightarrow> jsstring + jsstring \<Rightarrow> chat_state
     \<Rightarrow> chat_state \<times> api_call list" where
  "callChatAPI um sp closure_messages response st =
     (let st1 = st\<lparr>isLoading := True, error := None\<rparr>;
          hist = filter (\<lambda>msg. sender msg \<noteq> System) closure_messages;
          call = \<lparr> userMessage = um, systemPrompt = sp, chatHistory = hist \<rparr>;
          st2 = (case response of
                   Inr r \<Rightarrow>
                     st1\<lparr>messages := messages st1 @ [\<lparr> sender = Assistant, mtext = r \<rparr>]\<rparr>
                 | Inl e \<Rightarrow>
                     st1\<lparr>error := Some (utf16 ''Failed to get response: '' @ e),
                         messages := messages st1 @
                           [\<lparr> sender = System,
                              mtext = utf16 ''Error: Unable to process your request. '' @ e \<rparr>]\<rparr>)
      in (st2\<lparr>isLoading := False\<rparr>, [call]))"

definition select_context_warning :: jsstring where
  "select_context_warning =
     utf16 ''Please select at least one patent or BREF section before asking questions.''"

text \<open>
  \<open>handleSendMessage(message)\<close>, with the component's props \<open>selectedPatents\<close> and
  \<open>selectedBrefs\<close> and the prompt builder \<open>createSystemPrompt\<close> as parameters.
\<close>

definition handleSendMessage ::
  "jsstring \<Rightarrow> patent list \<Rightarrow> bref_section list
     \<Rightarrow> (patent list \<Rightarrow> bref_section list \<Rightarrow> jsstring)
     \<Rightarrow> jsstring + jsstring \<Rightarrow> chat_state \<Rightarrow> chat_state \<times> api_call list" where
  "handleSendMessage msg selectedPatents selectedBrefs createSystemPrompt response st =
     (if trim msg = [] \<and> \<not> isLoading st then (st, [])
      else if length selectedPatents = 0 \<and> length selectedBrefs = 0 then
        (st\<lparr>messages := messages st @ [\<lparr> sender = System, mtext = select_context_warning \<rparr>]\<rparr>, [])
      else
        let st1 = st\<lparr>messages := messages st @ [\<lparr> sender = User, mtext = msg \<rparr>]\<rparr>;
            st2 = st1\<lparr>inputMessage := []\<rparr>
        in callChatAPI msg (createSystemPrompt selectedPatents selectedBrefs) (messages st) response st2)"

section \<open>Selecting a hierarchy node (HierarchicalBrefSelector, dashboard)\<close>

text \<open>
  \<open>checkNodeMatches(node)\<close> returns \<open>{direct, children}\<close>, here a pair. The annotations are
  tested with \<open>=== true\<close>; without either, the children are searched recursively.
\<close>

function checkNodeMatches :: "json \<Rightarrow> bool \<times> bool" where
  "checkNodeMatches node =
    (if \<not> truthy node then (False, False) else
     let hasDirectMatch = (jprop node ''hasMatchForPollutant'' = Some (JBool True));
         hasChildrenMatch = (jprop node ''hasChildrenWithMatchForPollutant'' = Some (JBool True))
     in if hasDirectMatch \<or> hasChildrenMatch then (hasDirectMatch, hasChildrenMatch)
        else (hasDirectMatch,
          (case jprop node ''children'' of
             Some (JArr cs) \<Rightarrow>
               list_ex (\<lambda>child. fst (checkNodeMatches child) \<or> snd (checkNodeMatches child)) cs
           | Some (JObj ps) \<Rightarrow>
               list_ex (\<lambda>child. fst (checkNodeMatches child) \<or> snd (checkNodeMatches child))
                 (map snd ps)
           | _ \<Rightarrow> False)))"
  by pat_completeness auto
termination
proof -
  have m: "size v < size (JObj ps)" if "map_of ps k = Some v" for ps k and v :: json
    using that by (induction ps) (auto split: if_splits)
  have p: "size v < size n" if "jprop n k = Some v" for n k v
    using that m by (cases n) auto
  have a: "size c < size (JArr cs)" if "c \<in> set cs" for c cs
    using that by (induction cs) auto
  have b: "size c < size (JObj ps)" if "(k, c) \<in> set ps" for k c ps
    using that by (induction ps) auto
  show ?thesis
    apply (relation "measure size")
    subgoal by simp
    subgoal using p a by fastforce
    subgoal using p a by fastforce
    subgoal using p b by fastforce
    subgoal using p b by fastforce
    done
qed

declare checkNodeMatches.simps [simp del]

text \<open>
  \<open>renderNode\<close> computes, for the node it draws, \<open>hasChildren\<close>, \<open>isLeaf = !hasChildren\<close> and
  \<open>isRelevant = matches.direct || matches.children\<close>, and passes them to the click handler.
\<close>

definition hasChildren :: "json \<Rightarrow> bool" where
  "hasChildren node =
     (case jprop node ''children'' of
        None \<Rightarrow> False
      | Some ch \<Rightarrow> truthy ch \<and>
          (case ch of
             JArr cs \<Rightarrow> length cs > 0
           | JObj ps \<Rightarrow> length ps > 0
           | _ \<Rightarrow> False))"

definition isRelevant :: "json \<Rightarrow> bool" where
  "isRelevant node = (fst (checkNodeMatches node) \<or> snd (checkNodeMatches node))"

text \<open>
  The dashboard's selection state (\<open>selectedBref\<close> starts as \<open>null\<close>, the path as \<open>[]\<close>)
  and \<open>handleBrefSelect(bref, brefPath = [])\<close>, which the selector receives as
  \<open>onBrefSelect\<close>. A path entry is \<open>{id, name}\<close>.
\<close>

type_synonym bref_path = "(json option \<times> string) list"

record selection =
  selectedBref :: json
  selectedBrefPath :: bref_path

definition handleBrefSelect :: "json \<Rightarrow> bref_path \<Rightarrow> selection \<Rightarrow> selection" where
  "handleBrefSelect bref brefPath st = st\<lparr>selectedBref := bref, selectedBrefPath := brefPath\<rparr>"

text \<open>
  \<open>handleSelectNode(node, path, isRelevant, isLeaf)\<close> with the prop \<open>selectedPollutant\<close>
  (\<open>None\<close> is \<open>null\<close>). The result is the \<open>onBrefSelect\<close> call it makes, if any; the
  patent count it reads is only logged.
\<close>

definition pollutant_active :: "string option \<Rightarrow> bool" where
  "pollutant_active sp = (case sp of None \<Rightarrow> False | Some s \<Rightarrow> s \<noteq> [])"

definition handleSelectNode ::
  "json \<Rightarrow> bref_path option \<Rightarrow> bool \<Rightarrow> bool \<Rightarrow> string option \<Rightarrow> (json \<times> bref_path) option" where
  "handleSelectNode node path isRel isLeaf selectedPollutant =
     (if \<not> isLeaf then None
      else if pollutant_active selectedPollutant \<and> \<not> isRel then None
      else let currentPath = (case path of None \<Rightarrow> [] | Some p \<Rightarrow> p)
           in Some (node, currentPath))"

text \<open>A click on a node drawn by \<open>renderNode\<close>: the handler's call, applied to the dashboard's state.\<close>

definition click_node :: "json \<Rightarrow> bref_path \<Rightarrow> string option \<Rightarrow> selection \<Rightarrow> selection" where
  "click_node node currentPath selectedPollutant st =
     (case handleSelectNode node (Some currentPath) (isRelevant node) (\<not> hasChildren node)
             selectedPollutant of
        None \<Rightarrow> st
      | Some (bref, brefPath) \<Rightarrow> handleBrefSelect bref brefPath st)"

section \<open>Patent ranking (PatentRanking)\<close>

definition RELIABILITY_THRESHOLD :: rat where
  "RELIABILITY_THRESHOLD = 68 / 100"

text \<open>
  The relevance matrix \<open>brefRelevanceScores\<close>: patent id to (node id to score), each object
  in the order \<open>for ... in\<close> enumerates it. The patent index maps a patent id to its
  details; the state holding it starts as \<open>null\<close>.
\<close>

type_synonym relevance_matrix = "(string \<times> (string \<times> rat) list) list"

record patent_details =
  d_title :: "string option"
  d_year :: "int option"
  d_abstract :: "string option"
  d_text :: "string option"

type_synonym patent_index = "string \<Rightarrow> patent_details option"

text \<open>\<open>getRelevanceScore(patent, brefId)\<close>; \<open>brefId\<close> is the value of \<open>selectedBref.id\<close>.\<close>

definition getRelevanceScore :: "relevance_matrix \<Rightarrow> patent \<Rightarrow> json option \<Rightarrow> rat" where
  "getRelevanceScore brefRelevanceScores p brefId =
     (if truthy_opt brefId then
        (case (case bref_relevance p of None \<Rightarrow> None | Some m \<Rightarrow> map_of m (key_of brefId)) of
           Some s \<Rightarrow> s
         | None \<Rightarrow>
             (case map_of brefRelevanceScores (pid p) of
                Some row \<Rightarrow> (case map_of row (key_of brefId) of Some s \<Rightarrow> s | None \<Rightarrow> 0)
              | None \<Rightarrow> 0))
      else (case score p of Some s \<Rightarrow> s | None \<Rightarrow> 0))"

text \<open>\<open>s && s >= RELIABILITY_THRESHOLD\<close> for a score read from a row (\<open>undefined\<close> when absent).\<close>

definition counts_for :: "rat option \<Rightarrow> bool" where
  "counts_for r = (case r of None \<Rightarrow> False | Some s \<Rightarrow> s \<noteq> 0 \<and> s \<ge> RELIABILITY_THRESHOLD)"

text \<open>\<open>getBrefRelevantPatentCount\<close>: \<open>-1\<close> stands for "not applicable".\<close>

definition getBrefRelevantPatentCount :: "json \<Rightarrow> relevance_matrix \<Rightarrow> int" where
  "getBrefRelevantPatentCount selBref brefRelevanceScores =
     (if \<not> truthy selBref \<or> length brefRelevanceScores = 0 then - 1
      else foldl (\<lambda>count (patentId, patentBrefScores).
                    if counts_for (map_of patentBrefScores (key_of (jprop selBref ''id'')))
                    then count + 1 else count)
             0 brefRelevanceScores)"

text \<open>\<open>x.relevanceScore >= RELIABILITY_THRESHOLD\<close>, false of \<open>undefined\<close>.\<close>

definition above_threshold :: "patent \<Rightarrow> bool" where
  "above_threshold p =
     (case relevanceScore p of None \<Rightarrow> False | Some s \<Rightarrow> s \<ge> RELIABILITY_THRESHOLD)"

definition topPatentsWithScores :: "patent list \<Rightarrow> json \<Rightarrow> relevance_matrix \<Rightarrow> patent list" where
  "topPatentsWithScores topPatents selBref brefRelevanceScores =
     filter above_threshold
       (map (\<lambda>p. p\<lparr>relevanceScore :=
                      Some (getRelevanceScore brefRelevanceScores p (jprop selBref ''id''))\<rparr>)
            topPatents)"

text \<open>The entry pushed for a patent found in the matrix only.\<close>

definition matrix_patent :: "string \<Rightarrow> patent_details \<Rightarrow> string \<Rightarrow> rat \<Rightarrow> patent" where
  "matrix_patent patentId patentDetails brefKey brefScore =
     \<lparr> pid = patentId,
       title = Some (case d_title patentDetails of
                       Some t \<Rightarrow> (if t \<noteq> [] then t else ''Patent '' @ patentId)
                     | None \<Rightarrow> ''Patent '' @ patentId),
       year = d_year patentDetails,
       abstract = (case d_abstract patentDetails of
                     Some a \<Rightarrow> (if a \<noteq> [] then Some a else d_text patentDetails)
                   | None \<Rightarrow> d_text patentDetails),
       score = Some 0,
       bref_relevance = Some [(brefKey, brefScore)],
       relevanceScore = Some brefScore \<rparr>"

text \<open>The body of the loop over the matrix (\<open>for (const patentId in brefRelevanceScores)\<close>).\<close>

definition consider_matrix_patent ::
  "patent list \<Rightarrow> string \<Rightarrow> patent_index \<Rightarrow> patent list \<Rightarrow> string \<times> (string \<times> rat) list
     \<Rightarrow> patent list" where
  "consider_matrix_patent topPatents brefKey idx acc entry =
     (case entry of (patentId, patentBrefScores) \<Rightarrow>
        if list_ex (\<lambda>p. pid p = patentId) topPatents then acc
        else (case map_of patentBrefScores brefKey of
                None \<Rightarrow> acc
              | Some brefScore \<Rightarrow>
                  if counts_for (Some brefScore) then
                    (case idx patentId of
                       None \<Rightarrow> acc
                     | Some patentDetails \<Rightarrow>
                         acc @ [matrix_patent patentId patentDetails brefKey brefScore])
                  else acc))"

definition brefRelevantPatents ::
  "patent list \<Rightarrow> json \<Rightarrow> relevance_matrix \<Rightarrow> patent_index option \<Rightarrow> patent list" where
  "brefRelevantPatents topPatents selBref brefRelevanceScores patentIndex =
     (case patentIndex of
        None \<Rightarrow> []
      | Some idx \<Rightarrow>
          foldl (consider_matrix_patent topPatents (key_of (jprop selBref ''id'')) idx)
            [] brefRelevanceScores)"

text \<open>
  \<open>new Map(entries)\<close> sets the entries in turn: a key seen before keeps its place and
  takes the new value. \<open>Array.from(map.values())\<close> reads the values in that order.
\<close>

fun map_set :: "'k \<Rightarrow> 'v \<Rightarrow> ('k \<times> 'v) list \<Rightarrow> ('k \<times> 'v) list" where
  "map_set k v [] = [(k, v)]"
| "map_set k v ((k', v') # m) = (if k' = k then (k, v) # m else (k', v') # map_set k v m)"

definition new_Map :: "('k \<times> 'v) list \<Rightarrow> ('k \<times> 'v) list" where
  "new_Map entries = foldl (\<lambda>m (k, v). map_set k v m) [] entries"

definition uniquePatents :: "patent list \<Rightarrow> patent list" where
  "uniquePatents combinedPatents = map snd (new_Map (map (\<lambda>p. (pid p, p)) combinedPatents))"

text \<open>
  \<open>.sort((a, b) => b.relevanceScore - a.relevanceScore)\<close>: a stable sort, descending.
  Every entry that reaches the sort carries a number.
\<close>

definition sort_score :: "patent \<Rightarrow> rat" where
  "sort_score p = (case relevanceScore p of None \<Rightarrow> 0 | Some s \<Rightarrow> s)"

definition sort_by_relevance :: "patent list \<Rightarrow> patent list" where
  "sort_by_relevance ps = sort_key (\<lambda>p. - sort_score p) ps"

text \<open>
  \<open>rankedPatents\<close>, from the state \<open>topPatents\<close>, \<open>brefRelevanceScores\<close>, \<open>patentIndex\<close> and
  the props \<open>selectedBref\<close> and \<open>maxPatents\<close> (default 5).
\<close>

definition rankedPatents ::
  "patent list \<Rightarrow> json \<Rightarrow> relevance_matrix \<Rightarrow> patent_index option \<Rightarrow> nat \<Rightarrow> patent list" where
  "rankedPatents topPatents selBref brefRelevanceScores patentIndex maxPatents =
     (if length topPatents = 0 then []
      else if truthy selBref \<and> truthy_opt (jprop selBref ''id'') \<and> length brefRelevanceScores > 0
      then
        if getBrefRelevantPatentCount selBref brefRelevanceScores = 0 then []
        else
          let combinedPatents =
                topPatentsWithScores topPatents selBref brefRelevanceScores @
                brefRelevantPatents topPatents selBref brefRelevanceScores patentIndex
          in take maxPatents (sort_by_relevance (uniquePatents combinedPatents))
      else
        take maxPatents
          (sort_by_relevance
             (filter above_threshold (map (\<lambda>p. p\<lparr>relevanceScore := score p\<rparr>) topPatents))))"

section \<open>Patent counts per node (HierarchicalBrefSelector)\<close>

text \<open>
  Count tables are objects keyed by node id; \<open>table[k] || 0\<close> reads one. The set of
  relevant nodes is the object \<open>relevantNodes\<close> whose keys map to \<open>true\<close>. Both are
  plain objects, so a read also sees the properties inherited from \<open>Object.prototype\<close>;
  identifiers are taken not to be names of such properties (\<open>constructor\<close>,
  \<open>toString\<close>, ...), and a table read is a read of its own entries.
\<close>

type_synonym count_table = "string \<Rightarrow> nat option"

definition count_or_0 :: "count_table \<Rightarrow> string \<Rightarrow> nat" where
  "count_or_0 t k = (case t k of None \<Rightarrow> 0 | Some c \<Rightarrow> c)"

text \<open>The direct-match phase of \<open>calculateAllPatentCounts\<close>: the two nested \<open>for ... in\<close> loops.\<close>

definition count_direct :: "string set \<Rightarrow> count_table \<Rightarrow> string \<times> rat \<Rightarrow> count_table" where
  "count_direct relevantNodes directMatches entry =
     (case entry of (brefId, s) \<Rightarrow>
        if s \<ge> RELIABILITY_THRESHOLD \<and> brefId \<in> relevantNodes
        then directMatches(brefId \<mapsto> count_or_0 directMatches brefId + 1)
        else directMatches)"

definition directMatchCounts :: "relevance_matrix \<Rightarrow> string set \<Rightarrow> count_table" where
  "directMatchCounts relevanceScores relevantNodes =
     foldl (\<lambda>directMatches (patentId, patentBrefScores).
              foldl (count_direct relevantNodes) directMatches patentBrefScores)
       Map.empty relevanceScores"

text \<open>
  \<open>calculateCumulativeCounts(node, directMatches, relevantNodes, result)\<close>. The table
  \<open>result\<close> is shared and updated in place; here it is passed along and returned.
  \<open>None\<close> is the TypeError of reading \<open>child.id\<close> of a \<open>null\<close> child. The two
  \<open>forEach\<close> loops over the children of a node with an id carry the running
  \<open>cumulativeCount\<close> with the table.
\<close>

function calculateCumulativeCounts ::
      "json \<Rightarrow> count_table \<Rightarrow> string set \<Rightarrow> count_table \<Rightarrow> count_table option"
  and cc_each ::
      "json list \<Rightarrow> count_table \<Rightarrow> string set \<Rightarrow> count_table \<Rightarrow> count_table option"
  and cc_values ::
      "(string \<times> json) list \<Rightarrow> count_table \<Rightarrow> string set \<Rightarrow> count_table \<Rightarrow> count_table option"
  and cc_array_children ::
      "json list \<Rightarrow> count_table \<Rightarrow> string set \<Rightarrow> nat \<Rightarrow> count_table
         \<Rightarrow> (nat \<times> count_table) option"
  and cc_object_children ::
      "(string \<times> json) list \<Rightarrow> count_table \<Rightarrow> string set \<Rightarrow> nat \<Rightarrow> count_table
         \<Rightarrow> (nat \<times> count_table) option"
where
  "calculateCumulativeCounts JNull D R result = Some result"
| "calculateCumulativeCounts (JBool b) D R result = Some result"
| "calculateCumulativeCounts (JStr s) D R result = Some result"
| "calculateCumulativeCounts (JArr nodes) D R result = cc_each nodes D R result"
| "calculateCumulativeCounts (JObj ps) D R result =
     (if \<not> truthy_opt (map_of ps ''id'') then
        (if truthy_opt (map_of ps ''children'')
         then (case map_of ps ''children'' of
                 None \<Rightarrow> Some result
               | Some ch \<Rightarrow> calculateCumulativeCounts ch D R result)
         else cc_values ps D R result)
      else
        let nodeId = key_of (map_of ps ''id'');
            cumulativeCount = count_or_0 D nodeId
        in case (case map_of ps ''children'' of
                   Some (JArr cs) \<Rightarrow> cc_array_children cs D R cumulativeCount result
                 | Some (JObj es) \<Rightarrow> cc_object_children es D R cumulativeCount result
                 | _ \<Rightarrow> Some (cumulativeCount, result)) of
             None \<Rightarrow> None
           | Some (cumulativeCount', result') \<Rightarrow> Some (result'(nodeId \<mapsto> cumulativeCount')))"
| "cc_each [] D R result = Some result"
| "cc_each (childNode # nodes) D R result =
     (case calculateCumulativeCounts childNode D R result of
        None \<Rightarrow> None
      | Some result' \<Rightarrow> cc_each nodes D R result')"
| "cc_values [] D R result = Some result"
| "cc_values ((k, childNode) # ps) D R result =
     (if truthy childNode \<and> typeof_object childNode
      then (case calculateCumulativeCounts childNode D R result of
              None \<Rightarrow> None
            | Some result' \<Rightarrow> cc_values ps D R result')
      else cc_values ps D R result)"
| "cc_array_children [] D R cumulativeCount result = Some (cumulativeCount, result)"
| "cc_array_children (child # cs) D R cumulativeCount result =
     (if child = JNull then None
      else if truthy_opt (jprop child ''id'') \<and> key_of (jprop child ''id'') \<in> R then
        (case calculateCumulativeCounts child D R result of
           None \<Rightarrow> None
         | Some result' \<Rightarrow>
             cc_array_children cs D R
               (cumulativeCount + count_or_0 result' (key_of (jprop child ''id''))) result')
      else cc_array_children cs D R cumulativeCount result)"
| "cc_object_children [] D R cumulativeCount result = Some (cumulativeCount, result)"
| "cc_object_children ((childKey, child) # es) D R cumulativeCount result =
     (if child = JNull then None
      else
        let childId = (if truthy_opt (jprop child ''id'') then key_of (jprop child ''id'')
                       else childKey)
        in if childId \<in> R then
             (case calculateCumulativeCounts child D R result of
                None \<Rightarrow> None
              | Some result' \<Rightarrow>
                  cc_object_children es D R (cumulativeCount + count_or_0 result' childId) result')
           else cc_object_children es D R cumulativeCount result)"
  by pat_completeness auto
termination
proof -
  have m: "size v < Suc (size_list (size_prod (\<lambda>x. 0) size) ps)"
    if "map_of ps k = Some v" for ps :: "(string \<times> json) list" and k v
    using that by (induction ps) (auto split: if_splits)
  show ?thesis
    apply (relation "measure (\<lambda>x. case x of
              Inl (Inl (n, D, R, res)) \<Rightarrow> size n
            | Inl (Inr (ns, D, R, res)) \<Rightarrow> size_list size ns
            | Inr (Inl (ps, D, R, res)) \<Rightarrow> size_list (size_prod (\<lambda>x. 0) size) ps
            | Inr (Inr (Inl (cs, D, R, c, res))) \<Rightarrow> size_list size cs
            | Inr (Inr (Inr (es, D, R, c, res))) \<Rightarrow> size_list (size_prod (\<lambda>x. 0) size) es)")
    using m by (auto dest!: m)
qed

text \<open>
  \<open>calculateAllPatentCounts(relevanceScores, hierarchy, relevantNodes)\<close>: the value it
  stores in \<open>patentCountCache\<close> (\<open>None\<close> when the traversal throws). \<open>relevanceScores\<close> is
  \<open>None\<close> when it is \<open>null\<close>.
\<close>

definition calculateAllPatentCounts ::
  "relevance_matrix option \<Rightarrow> json \<Rightarrow> string set \<Rightarrow> count_table option" where
  "calculateAllPatentCounts relevanceScores hierarchy relevantNodes =
     (case relevanceScores of
        None \<Rightarrow> Some Map.empty
      | Some scores \<Rightarrow>
          if \<not> truthy hierarchy then Some Map.empty
          else calculateCumulativeCounts hierarchy (directMatchCounts scores relevantNodes)
                 relevantNodes Map.empty)"

section \<open>Definitions used to state the properties\<close>

text \<open>
  \<open>map_sets m es\<close> is the content of a \<open>Map\<close> holding \<open>m\<close> after setting the entries \<open>es\<close>.
  \<open>bref_mode\<close> is the condition under which \<open>rankedPatents\<close> ranks by the selected node,
  \<open>pollutant_scored\<close> and \<open>bref_union\<close> are the lists it builds in the two modes, and
  \<open>matrix_only\<close> holds of the matrix rows the loop pushes an entry for.
\<close>

definition map_sets :: "('k \<times> 'v) list \<Rightarrow> ('k \<times> 'v) list \<Rightarrow> ('k \<times> 'v) list" where
  "map_sets m es = foldl (\<lambda>m (k, v). map_set k v m) m es"

definition bref_mode :: "json \<Rightarrow> relevance_matrix \<Rightarrow> bool" where
  "bref_mode selBref brefRelevanceScores =
     (truthy selBref \<and> truthy_opt (jprop selBref ''id'') \<and> brefRelevanceScores \<noteq> [])"

definition pollutant_scored :: "patent list \<Rightarrow> patent list" where
  "pollutant_scored topPatents = map (\<lambda>p. p\<lparr>relevanceScore := score p\<rparr>) topPatents"

definition bref_union :: "patent list \<Rightarrow> json \<Rightarrow> relevance_matrix \<Rightarrow> patent_index option \<Rightarrow> patent list" where
  "bref_union tp sel M idx = topPatentsWithScores tp sel M @ brefRelevantPatents tp sel M idx"

definition matrix_only :: "patent list \<Rightarrow> string \<Rightarrow> patent_index \<Rightarrow> string \<times> (string \<times> rat) list \<Rightarrow> bool" where
  "matrix_only tp key idx entry =
     (case entry of (i, row) \<Rightarrow>
        \<not> list_ex (\<lambda>p. pid p = i) tp \<and> counts_for (map_of row key) \<and> idx i \<noteq> None)"

text \<open>
  For the counts: \<open>nkey\<close> is the table key of a node's id, \<open>has_id\<close> says that the id is
  truthy, \<open>relevant_children\<close> are the children of a node whose id is in the relevant set.
  \<open>visits R h\<close> lists, in the order of the traversal of \<open>h\<close>, the identifiers under which
  \<open>calculateCumulativeCounts\<close> stores a count (paired with the node) or reads one for a
  keyed child without an id (paired with \<open>None\<close>); it follows the traversal's branches.
  \<open>cumulative\<close> is the count as a pure fold over the tree. \<open>null_free\<close> holds of a value
  without \<open>null\<close> in it. \<open>matrix_entries\<close> are the (patent, node, score) triples of a
  matrix, \<open>counted\<close> those the direct-match phase counts for a node.
\<close>

definition nkey :: "json \<Rightarrow> string" where
  "nkey node = key_of (jprop node ''id'')"

definition has_id :: "json \<Rightarrow> bool" where
  "has_id node = truthy_opt (jprop node ''id'')"

definition children_of :: "json \<Rightarrow> json list" where
  "children_of node =
     (case jprop node ''children'' of
        Some (JArr cs) \<Rightarrow> cs
      | Some (JObj es) \<Rightarrow> map snd es
      | _ \<Rightarrow> [])"

definition relevant_children :: "string set \<Rightarrow> json \<Rightarrow> json list" where
  "relevant_children R node = filter (\<lambda>c. has_id c \<and> nkey c \<in> R) (children_of node)"

function visits :: "string set \<Rightarrow> json \<Rightarrow> (string \<times> json option) list"
  and visits_each :: "string set \<Rightarrow> json list \<Rightarrow> (string \<times> json option) list"
  and visits_values :: "string set \<Rightarrow> (string \<times> json) list \<Rightarrow> (string \<times> json option) list"
  and visits_array_children :: "string set \<Rightarrow> json list \<Rightarrow> (string \<times> json option) list"
  and visits_object_children ::
        "string set \<Rightarrow> (string \<times> json) list \<Rightarrow> (string \<times> json option) list"
where
  "visits R JNull = []"
| "visits R (JBool b) = []"
| "visits R (JStr s) = []"
| "visits R (JArr nodes) = visits_each R nodes"
| "visits R (JObj ps) =
     (if \<not> truthy_opt (map_of ps ''id'') then
        (if truthy_opt (map_of ps ''children'')
         then (case map_of ps ''children'' of None \<Rightarrow> [] | Some ch \<Rightarrow> visits R ch)
         else visits_values R ps)
      else
        (case map_of ps ''children'' of
           Some (JArr cs) \<Rightarrow> visits_array_children R cs
         | Some (JObj es) \<Rightarrow> visits_object_children R es
         | _ \<Rightarrow> [])
        @ [(key_of (map_of ps ''id''), Some (JObj ps))])"
| "visits_each R [] = []"
| "visits_each R (childNode # nodes) = visits R childNode @ visits_each R nodes"
| "visits_values R [] = []"
| "visits_values R ((k, childNode) # ps) =
     (if truthy childNode \<and> typeof_object childNode then visits R childNode else [])
     @ visits_values R ps"
| "visits_array_children R [] = []"
| "visits_array_children R (child # cs) =
     (if truthy_opt (jprop child ''id'') \<and> key_of (jprop child ''id'') \<in> R
      then visits R child else [])
     @ visits_array_children R cs"
| "visits_object_children R [] = []"
| "visits_object_children R ((childKey, child) # es) =
     (if truthy_opt (jprop child ''id'')
      then (if key_of (jprop child ''id'') \<in> R then visits R child else [])
      else (if childKey \<in> R then visits R child @ [(childKey, None)] else []))
     @ visits_object_children R es"
  by pat_completeness auto
termination
proof -
  have m: "size v < Suc (size_list (size_prod (\<lambda>x. 0) size) ps)"
    if "map_of ps k = Some v" for ps :: "(string \<times> json) list" and k v
    using that by (induction ps) (auto split: if_splits)
  show ?thesis
    apply (relation "measure (\<lambda>x. case x of
              Inl (Inl (R, n)) \<Rightarrow> size n
            | Inl (Inr (R, ns)) \<Rightarrow> size_list size ns
            | Inr (Inl (R, ps)) \<Rightarrow> size_list (size_prod (\<lambda>x. 0) size) ps
            | Inr (Inr (Inl (R, cs))) \<Rightarrow> size_list size cs
            | Inr (Inr (Inr (R, es))) \<Rightarrow> size_list (size_prod (\<lambda>x. 0) size) es)")
    using m by (auto dest!: m)
qed

function cumulative :: "count_table \<Rightarrow> string set \<Rightarrow> json \<Rightarrow> nat" where
  "cumulative D R node =
     count_or_0 D (nkey node) + sum_list (map (cumulative D R) (relevant_children R node))"
  by pat_completeness auto
termination
proof -
  have m: "size v < size (JObj qs)" if "map_of qs k = Some v" for qs k and v :: json
    using that by (induction qs) (auto split: if_splits)
  have a: "size c < size (JArr cs)" if "c \<in> set cs" for c cs
    using that by (induction cs) auto
  have b: "size c < size (JObj qs)" if "c \<in> snd ` set qs" for c qs
    using that by (induction qs) force+
  have sz: "size c < size node" if c: "c \<in> set (children_of node)" for c node
  proof (cases node)
    case (JObj ps)
    show ?thesis
    proof (cases "map_of ps ''children''")
      case None
      with c JObj show ?thesis by (simp add: children_of_def)
    next
      case (Some ch)
      from m [OF Some] have ch: "size ch < size node" by (simp add: JObj)
      show ?thesis
      proof (cases ch)
        case (JArr cs)
        with c \<open>node = JObj ps\<close> Some have "c \<in> set cs" by (simp add: children_of_def)
        from a [OF this] ch JArr show ?thesis by simp
      next
        case (JObj es)
        with c \<open>node = JObj ps\<close> Some have "c \<in> snd ` set es" by (simp add: children_of_def)
        from b [OF this] ch JObj show ?thesis by simp
      qed (use c \<open>node = JObj ps\<close> Some in \<open>simp_all add: children_of_def\<close>)
    qed
  qed (use c in \<open>simp_all add: children_of_def\<close>)
  show ?thesis
    apply (relation "measure (\<lambda>(D, R, node). size node)")
     apply simp
    apply (simp add: relevant_children_def sz)
    done
qed

declare cumulative.simps [simp del]

fun null_free :: "json \<Rightarrow> bool" where
  "null_free JNull = False"
| "null_free (JBool b) = True"
| "null_free (JStr s) = True"
| "null_free (JArr xs) = list_all null_free xs"
| "null_free (JObj ps) = list_all (\<lambda>e. null_free (snd e)) ps"

definition matrix_entries :: "relevance_matrix \<Rightarrow> (string \<times> string \<times> rat) list" where
  "matrix_entries M = concat (map (\<lambda>(patentId, row). map (\<lambda>(nodeId, s). (patentId, nodeId, s)) row) M)"

definition counted :: "string set \<Rightarrow> string \<Rightarrow> string \<times> string \<times> rat \<Rightarrow> bool" where
  "counted R n entry =
     (case entry of (patentId, nodeId, s) \<Rightarrow>
        nodeId = n \<and> s \<ge> RELIABILITY_THRESHOLD \<and> nodeId \<in> R)"

definition stored :: "(string \<times> json option) list \<Rightarrow> string set" where
  "stored vs = {k. \<exists>m. (k, Some m) \<in> set vs}"

definition Good ::
  "count_table \<Rightarrow> string set \<Rightarrow> (string \<times> json option) list \<Rightarrow> count_table \<Rightarrow> count_table \<Rightarrow> bool" where
  "Good D R vs res res' =
     ((\<forall>k. k \<notin> stored vs \<longrightarrow> res' k = res k) \<and>
      (\<forall>k m. (k, Some m) \<in> set vs \<longrightarrow>
         k = nkey m \<and> has_id m \<and> res' k = Some (cumulative D R m)))"

definition met_identifiers :: "string set \<Rightarrow> json \<Rightarrow> string list" where
  "met_identifiers R h = map fst (visits R h)"

definition reached_nodes :: "string set \<Rightarrow> json \<Rightarrow> json list" where
  "reached_nodes R h = concat (map (\<lambda>(k, v). case v of None \<Rightarrow> [] | Some m \<Rightarrow> [m]) (visits R h))"

definition Closed :: "string set \<Rightarrow> (string \<times> json option) list \<Rightarrow> bool" where
  "Closed R vs =
     (\<forall>k m. (k, Some m) \<in> set vs \<longrightarrow>
        (\<forall>c \<in> set (relevant_children R m). (nkey c, Some c) \<in> set vs))"

section \<open>Fixtures\<close>

definition P1 :: patent where
  "P1 = \<lparr> pid = ''P1'', title = None, year = None, abstract = None, score = None,
          bref_relevance = None, relevanceScore = None \<rparr>"

definition B1 :: bref_section where
  "B1 = \<lparr> bid = ''B1'', bname = ''B1'', btext = ''text'' \<rparr>"

definition idle :: chat_state where
  "idle = \<lparr> messages = [], inputMessage = [0x20], isLoading = False, error = None \<rparr>"

definition no_prompt :: "patent list \<Rightarrow> bref_section list \<Rightarrow> jsstring" where
  "no_prompt ps bs = []"

definition leaf_A1 :: json where
  "leaf_A1 = JObj [(''id'', JStr ''A1'')]"

definition parent_A :: json where
  "parent_A = JObj [(''id'', JStr ''A''), (''children'', JArr [leaf_A1])]"

definition nothing_selected :: selection where
  "nothing_selected = \<lparr> selectedBref = JNull, selectedBrefPath = [] \<rparr>"

definition bref_B :: json where
  "bref_B = JObj [(''id'', JStr ''B'')]"

definition top_p1 :: patent where
  "top_p1 = \<lparr> pid = ''p1'', title = None, year = None, abstract = None, score = Some (9 / 10),
              bref_relevance = None, relevanceScore = None \<rparr>"

definition low_p2 :: patent where
  "low_p2 = \<lparr> pid = ''p2'', title = None, year = None, abstract = None, score = Some (5 / 10),
              bref_relevance = None, relevanceScore = None \<rparr>"

definition top_p3 :: patent where
  "top_p3 = \<lparr> pid = ''p3'', title = None, year = None, abstract = None, score = Some (9 / 10),
              bref_relevance = None, relevanceScore = None \<rparr>"

definition tie_a :: patent where
  "tie_a = \<lparr> pid = ''p1'', title = Some ''first entry of p1'', year = None, abstract = None,
             score = Some (9 / 10), bref_relevance = Some [(''B'', 9 / 10)], relevanceScore = None \<rparr>"

definition tie_b :: patent where
  "tie_b = \<lparr> pid = ''p2'', title = Some ''entry of p2'', year = None, abstract = None,
             score = Some (9 / 10), bref_relevance = Some [(''B'', 8 / 10)], relevanceScore = None \<rparr>"

definition tie_c :: patent where
  "tie_c = \<lparr> pid = ''p1'', title = Some ''second entry of p1'', year = None, abstract = None,
             score = Some (9 / 10), bref_relevance = Some [(''B'', 8 / 10)], relevanceScore = None \<rparr>"

definition matrix_p2 :: relevance_matrix where
  "matrix_p2 = [(''p2'', [(''B'', 8 / 10)])]"

definition matrix_low :: relevance_matrix where
  "matrix_low = [(''p2'', [(''B'', 5 / 10)])]"

definition index_p2 :: patent_index where
  "index_p2 = [''p2'' \<mapsto> \<lparr> d_title = Some ''Scrubber'', d_year = Some 2020,
                           d_abstract = None, d_text = None \<rparr>]"

definition fixture_matrix :: relevance_matrix where
  "fixture_matrix = [(''p1'', [(''A1'', 9 / 10)]), (''p2'', [(''A2a'', 7 / 10)])]"

definition fixture_relevant :: "string set" where
  "fixture_relevant = {''A'', ''A1'', ''A2'', ''A2a''}"

definition fixture_children :: json where
  "fixture_children =
     JArr [JObj [(''id'', JStr ''A1'')],
           JObj [(''id'', JStr ''A2''), (''children'', JArr [JObj [(''id'', JStr ''A2a'')]])]]"

definition fixture_hierarchy :: json where
  "fixture_hierarchy = JObj [(''A'', JObj [(''children'', fixture_children)])]"

definition fixture_hierarchy_with_id :: json where
  "fixture_hierarchy_with_id =
     JObj [(''A'', JObj [(''id'', JStr ''A''), (''children'', fixture_children)])]"

definition skipped_hierarchy :: json where
  "skipped_hierarchy =
     JArr [JObj [(''id'', JStr ''A''),
                 (''children'', JArr [JObj [(''id'', JStr ''C''),
                                            (''children'', JArr [JObj [(''id'', JStr ''B'')]])]])]]"

definition skipped_matrix :: relevance_matrix where
  "skipped_matrix = [(''p1'', [(''B'', 9 / 10)])]"

section \<open>Chat-context sets: repeated add\<close>

text \<open>
  C8, as stated, fails for the patent-context set: the operation behind "add" is a
  toggle. Applied to \<open>P1\<close> twice from the empty set, the second application removes
  \<open>P1\<close> again, so it is not a no-op and the size changes from 1 to 0.
\<close>

theorem patent_toggle_twice_counterexample:
  "handlePatentToggle P1 [] = [P1] \<and>
   handlePatentToggle P1 (handlePatentToggle P1 []) = [] \<and>
   length (handlePatentToggle P1 (handlePatentToggle P1 [])) \<noteq> length (handlePatentToggle P1 [])"
  by (simp add: handlePatentToggle_def P1_def)

lemma bref_in_after_add: "list_ex (\<lambda>b. bid b = i) (handleAddBrefToContext i n t brefs)"
  by (simp add: handleAddBrefToContext_def Let_def list_ex_iff)

text \<open>
  C8 (amended). For the BREF-context set, adding a section whose id is already a member
  leaves the set unchanged, so a second add of the same section is a no-op. For the
  patent-context set the operation is a toggle: on a patent whose id is a member it
  removes every entry with that id; on a patent whose id is not a member it appends the
  patent, and a second application restores the set it started from.
\<close>

theorem context_add_repeated:
  "(list_ex (\<lambda>b. bid b = i) brefs \<longrightarrow> handleAddBrefToContext i n t brefs = brefs) \<and>
   handleAddBrefToContext i n t (handleAddBrefToContext i n t brefs)
     = handleAddBrefToContext i n t brefs \<and>
   (list_ex (\<lambda>q. pid q = pid p) prev \<longrightarrow>
      handlePatentToggle p prev = filter (\<lambda>q. pid q \<noteq> pid p) prev) \<and>
   (\<not> list_ex (\<lambda>q. pid q = pid p) prev \<longrightarrow>
      handlePatentToggle p prev = prev @ [p] \<and>
      handlePatentToggle p (handlePatentToggle p prev) = prev)"
proof -
  have a: "list_ex (\<lambda>b. bid b = i) brefs \<longrightarrow> handleAddBrefToContext i n t brefs = brefs"
    by (simp add: handleAddBrefToContext_def Let_def)
  have b: "handleAddBrefToContext i n t (handleAddBrefToContext i n t brefs)
             = handleAddBrefToContext i n t brefs"
    using bref_in_after_add [of i n t brefs]
    by (simp add: handleAddBrefToContext_def [of i n t "handleAddBrefToContext i n t brefs"] Let_def)
  have c: "list_ex (\<lambda>q. pid q = pid p) prev \<longrightarrow>
      handlePatentToggle p prev = filter (\<lambda>q. pid q \<noteq> pid p) prev"
    by (simp add: handlePatentToggle_def)
  have d: "\<not> list_ex (\<lambda>q. pid q = pid p) prev \<longrightarrow>
      handlePatentToggle p prev = prev @ [p] \<and>
      handlePatentToggle p (handlePatentToggle p prev) = prev"
    by (auto simp add: handlePatentToggle_def list_ex_iff filter_id_conv)
  from a b c d show ?thesis by blast
qed

theorem context_add_repeated_witness:
  "handleAddBrefToContext ''B1'' None ''text'' [B1] = [B1] \<and>
   handleAddBrefToContext ''B1'' None ''text'' (handleAddBrefToContext ''B1'' None ''text'' [])
     = [B1] \<and>
   handlePatentToggle P1 [P1] = [] \<and>
   handlePatentToggle P1 (handlePatentToggle P1 []) = []"
  using context_add_repeated [of "''B1''" "[B1]" None "''text''" P1 "[P1]"]
        context_add_repeated [of "''B1''" "[]" None "''text''" P1 "[]"]
  by (simp add: P1_def B1_def handleAddBrefToContext_def)

section \<open>Sending without context\<close>

text \<open>
  C10, as stated, fails for a message that is not empty but blank: with the one-space
  message and no call in flight, the handler returns at its first guard and appends
  nothing.
\<close>

theorem send_blank_counterexample:
  "[0x20] \<noteq> ([] :: jsstring) \<and>
   handleSendMessage [0x20] [] [] no_prompt (Inr []) idle = (idle, [])"
  by (simp add: handleSendMessage_def trim_def is_white_space_def idle_def)

text \<open>
  C10 (amended). Invoked with a message that is not blank (not empty after trimming
  white space) while both context sets are empty, the send operation appends exactly one
  system-role message to the transcript, calls the collaborator not at all, appends no
  user-role message and changes nothing else of the chat state.
\<close>

theorem send_without_context:
  assumes "trim msg \<noteq> []" and "selectedPatents = []" and "selectedBrefs = []"
  shows "handleSendMessage msg selectedPatents selectedBrefs createSystemPrompt response st =
         (st\<lparr>messages := messages st @ [\<lparr> sender = System, mtext = select_context_warning \<rparr>]\<rparr>,
          [])"
  using assms by (simp add: handleSendMessage_def)

theorem send_without_context_witness:
  "trim [0x68, 0x69] \<noteq> [] \<and>
   handleSendMessage [0x68, 0x69] [] [] no_prompt (Inr []) idle =
     (idle\<lparr>messages := [\<lparr> sender = System, mtext = select_context_warning \<rparr>]\<rparr>, [])"
proof -
  have h: "trim [0x68, 0x69] \<noteq> []"
    by (simp add: trim_def is_white_space_def)
  show ?thesis
    using h send_without_context [OF h refl refl, of no_prompt "Inr []" idle]
    by (simp add: idle_def)
qed

section \<open>Rejected selections\<close>

lemma leaf_relevance:
  "\<not> hasChildren node \<Longrightarrow>
   isRelevant node =
     (truthy node \<and> (jprop node ''hasMatchForPollutant'' = Some (JBool True) \<or>
                     jprop node ''hasChildrenWithMatchForPollutant'' = Some (JBool True)))"
  unfolding isRelevant_def
  apply (subst (1 2) checkNodeMatches.simps)
  apply (auto simp: hasChildren_def Let_def split: option.splits json.splits)
  done

text \<open>
  C7. A click on a node that has children makes no \<open>onBrefSelect\<close> call and leaves the
  selection and its path as they were; so does, while a pollutant is active, a click on a
  leaf that carries neither annotation. Whenever a click changes the selection state, the
  node is a leaf, it is relevant if a pollutant is active, and the new state is the one
  \<open>onBrefSelect\<close> (the dashboard's \<open>handleBrefSelect\<close>) sets from the node and its path.
\<close>

theorem select_node_rejection:
  "(hasChildren node \<longrightarrow>
      handleSelectNode node (Some cp) (isRelevant node) (\<not> hasChildren node) sp = None \<and>
      click_node node cp sp st = st) \<and>
   (pollutant_active sp \<and> \<not> hasChildren node \<and>
    jprop node ''hasMatchForPollutant'' \<noteq> Some (JBool True) \<and>
    jprop node ''hasChildrenWithMatchForPollutant'' \<noteq> Some (JBool True) \<longrightarrow>
      handleSelectNode node (Some cp) (isRelevant node) (\<not> hasChildren node) sp = None \<and>
      click_node node cp sp st = st) \<and>
   (click_node node cp sp st = st \<or>
    (\<not> hasChildren node \<and> (pollutant_active sp \<longrightarrow> isRelevant node) \<and>
     handleSelectNode node (Some cp) (isRelevant node) (\<not> hasChildren node) sp = Some (node, cp) \<and>
     click_node node cp sp st = handleBrefSelect node cp st))"
  by (auto simp: click_node_def handleSelectNode_def leaf_relevance)

theorem select_node_rejection_witness:
  "hasChildren parent_A \<and>
   click_node parent_A [] (Some ''NOx'') nothing_selected = nothing_selected \<and>
   pollutant_active (Some ''NOx'') \<and> \<not> hasChildren leaf_A1 \<and>
   click_node leaf_A1 [] (Some ''NOx'') nothing_selected = nothing_selected \<and>
   click_node leaf_A1 [] None nothing_selected
     = \<lparr> selectedBref = leaf_A1, selectedBrefPath = [] \<rparr>"
  using select_node_rejection [of parent_A "[]" "Some ''NOx''" nothing_selected]
        select_node_rejection [of leaf_A1 "[]" "Some ''NOx''" nothing_selected]
        select_node_rejection [of leaf_A1 "[]" None nothing_selected]
  by (simp add: hasChildren_def pollutant_active_def parent_A_def leaf_A1_def
        nothing_selected_def handleBrefSelect_def click_node_def handleSelectNode_def)

section \<open>Ranking\<close>

subsection \<open>The map that removes repeated ids\<close>

lemma map_set_keys_old: "k \<in> fst ` set m \<Longrightarrow> map fst (map_set k v m) = map fst m"
  by (induction m) force+

lemma map_set_keys_new: "k \<notin> fst ` set m \<Longrightarrow> map fst (map_set k v m) = map fst m @ [k]"
  by (induction m) auto

lemma map_set_keys:
  "map fst (map_set k v m) = (if k \<in> set (map fst m) then map fst m else map fst m @ [k])"
  by (simp add: map_set_keys_old map_set_keys_new)

lemma map_set_set: "set (map_set k v m) \<subseteq> insert (k, v) (set m)"
  by (induction m) (auto split: if_splits)

lemma map_set_map_of: "map_of (map_set k v m) = (map_of m)(k \<mapsto> v)"
  by (induction m) (auto simp: fun_eq_iff)

lemma map_set_distinct: "distinct (map fst m) \<Longrightarrow> distinct (map fst (map_set k v m))"
  by (simp add: map_set_keys)

lemma map_sets_simps [simp]:
  "map_sets m [] = m"
  "map_sets m ((k, v) # es) = map_sets (map_set k v m) es"
  by (simp_all add: map_sets_def)

lemma new_Map_sets: "new_Map es = map_sets [] es"
  by (simp add: new_Map_def map_sets_def)

lemma map_sets_distinct: "distinct (map fst m) \<Longrightarrow> distinct (map fst (map_sets m es))"
  by (induction es arbitrary: m) (auto simp: map_set_distinct)

lemma map_sets_set: "set (map_sets m es) \<subseteq> set m \<union> set es"
proof (induction es arbitrary: m)
  case Nil
  then show ?case by simp
next
  case (Cons e es)
  obtain k v where e: "e = (k, v)" by (cases e)
  have "set (map_sets (map_set k v m) es) \<subseteq> set (map_set k v m) \<union> set es"
    by (rule Cons.IH)
  with map_set_set [of k v m] show ?case unfolding e by auto
qed

lemma map_sets_map_of: "map_of (map_sets m es) = map_of m ++ map_of (rev es)"
proof (induction es arbitrary: m)
  case Nil
  then show ?case by simp
next
  case (Cons e es)
  obtain k v where e: "e = (k, v)" by (cases e)
  show ?case unfolding e
    by (simp add: Cons.IH map_set_map_of fun_eq_iff map_add_def split: option.splits)
qed

lemma map_sets_keys:
  "distinct (map fst m) \<Longrightarrow>
   map fst (map_sets m es) = map fst m @ rev (remdups (rev (filter (\<lambda>k. k \<notin> set (map fst m)) (map fst es))))"
proof (induction es arbitrary: m)
  case Nil
  then show ?case by simp
next
  case (Cons e es)
  obtain k v where e: "e = (k, v)" by (cases e)
  show ?case
  proof (cases "k \<in> set (map fst m)")
    case True
    then show ?thesis unfolding e
      using Cons.IH [of "map_set k v m"] Cons.prems
      by (simp add: map_set_keys map_set_distinct)
  next
    case False
    have d: "distinct (map fst (map_set k v m))" using Cons.prems by (rule map_set_distinct)
    have r: "rev (remdups (xs @ [k])) = k # rev (remdups (filter (\<lambda>x. x \<noteq> k) xs))"
      for xs :: "'a list"
      by (induction xs) auto
    have "rev (remdups (rev (filter (\<lambda>x. x \<notin> set (map fst m)) (map fst es)) @ [k]))
        = k # rev (remdups (filter (\<lambda>x. x \<noteq> k) (rev (filter (\<lambda>x. x \<notin> set (map fst m)) (map fst es)))))"
      by (rule r)
    also have "filter (\<lambda>x. x \<noteq> k) (rev (filter (\<lambda>x. x \<notin> set (map fst m)) (map fst es)))
        = rev (filter (\<lambda>x. x \<notin> set (map fst m) \<and> x \<noteq> k) (map fst es))"
      by (simp add: rev_filter conj_commute)
    finally have g: "rev (remdups (rev (filter (\<lambda>x. x \<notin> set (map fst m)) (map fst es)) @ [k]))
        = k # rev (remdups (rev (filter (\<lambda>x. x \<notin> set (map fst m) \<and> x \<noteq> k) (map fst es))))" .
    have h: "set (map fst (map_set k v m)) = insert k (set (map fst m))"
      using False by (simp add: map_set_keys)
    have "map fst (map_sets (map_set k v m) es)
        = (map fst m @ [k]) @ rev (remdups (rev (filter (\<lambda>x. x \<notin> insert k (set (map fst m))) (map fst es))))"
      using Cons.IH [OF d] False unfolding h by (simp add: map_set_keys)
    also have "(\<lambda>x. x \<notin> insert k (set (map fst m))) = (\<lambda>x. x \<notin> set (map fst m) \<and> x \<noteq> k)"
      by auto
    finally show ?thesis unfolding e using False g by simp
  qed
qed

lemma new_Map_keys: "map fst (new_Map es) = rev (remdups (rev (map fst es)))"
  using map_sets_keys [of "[]" es] by (simp add: new_Map_sets)

lemma new_Map_distinct: "distinct (map fst (new_Map es))"
  using map_sets_distinct [of "[]" es] by (simp add: new_Map_sets)

lemma new_Map_set: "set (new_Map es) \<subseteq> set es"
  using map_sets_set [of "[]" es] by (simp add: new_Map_sets)

lemma new_Map_map_of: "map_of (new_Map es) = map_of (rev es)"
  using map_sets_map_of [of "[]" es] by (simp add: new_Map_sets)

lemma map_set_fresh: "k \<notin> fst ` set m \<Longrightarrow> map_set k v m = m @ [(k, v)]"
  by (induction m) auto

lemma map_sets_fresh: "distinct (map fst (m @ es)) \<Longrightarrow> map_sets m es = m @ es"
proof (induction es arbitrary: m)
  case Nil
  then show ?case by simp
next
  case (Cons e es)
  obtain k v where e: "e = (k, v)" by (cases e)
  have k: "k \<notin> fst ` set m" using Cons.prems unfolding e by auto
  have "distinct (map fst ((m @ [(k, v)]) @ es))" using Cons.prems unfolding e by auto
  from Cons.IH [OF this] show ?case unfolding e by (simp add: map_set_fresh [OF k])
qed

subsection \<open>De-duplication, sorting and the two ranking modes\<close>

lemma uniquePatents_set: "set (uniquePatents xs) \<subseteq> set xs"
  using new_Map_set [of "map (\<lambda>p. (pid p, p)) xs"] by (auto simp: uniquePatents_def)

lemma uniquePatents_keys:
  "map fst (new_Map (map (\<lambda>p. (pid p, p)) xs)) = map pid (uniquePatents xs)"
proof -
  have "\<forall>e \<in> set (new_Map (map (\<lambda>p. (pid p, p)) xs)). fst e = pid (snd e)"
    using new_Map_set [of "map (\<lambda>p. (pid p, p)) xs"] by auto
  then show ?thesis by (simp add: uniquePatents_def)
qed

lemma uniquePatents_ids: "map pid (uniquePatents xs) = rev (remdups (rev (map pid xs)))"
  using new_Map_keys [of "map (\<lambda>p. (pid p, p)) xs"]
  by (simp add: uniquePatents_keys comp_def)

lemma uniquePatents_distinct: "distinct (map pid (uniquePatents xs))"
  by (simp add: uniquePatents_ids)

lemma map_of_rev_last:
  "map_of (rev (map (\<lambda>p. (pid p, p)) xs)) k = Some p \<Longrightarrow>
   filter (\<lambda>q. pid q = k) xs \<noteq> [] \<and> p = last (filter (\<lambda>q. pid q = k) xs)"
  by (induction xs rule: rev_induct) (auto split: if_splits)

lemma uniquePatents_last:
  assumes "p \<in> set (uniquePatents xs)"
  shows "filter (\<lambda>q. pid q = pid p) xs \<noteq> [] \<and> p = last (filter (\<lambda>q. pid q = pid p) xs)"
proof -
  let ?es = "map (\<lambda>p. (pid p, p)) xs"
  from assms obtain k where kp: "(k, p) \<in> set (new_Map ?es)"
    by (auto simp: uniquePatents_def)
  with new_Map_set [of ?es] have k: "k = pid p" by auto
  from kp new_Map_distinct [of ?es] have "map_of (new_Map ?es) k = Some p" by simp
  then have "map_of (rev ?es) (pid p) = Some p" by (simp add: new_Map_map_of k)
  then show ?thesis by (rule map_of_rev_last)
qed

lemma uniquePatents_id: "distinct (map pid xs) \<Longrightarrow> uniquePatents xs = xs"
  using map_sets_fresh [of "[]" "map (\<lambda>p. (pid p, p)) xs"]
  by (simp add: uniquePatents_def new_Map_sets comp_def)

lemma filter_take_prefix: "prefix (filter P (take n ys)) (filter P ys)"
proof -
  have "filter P ys = filter P (take n ys) @ filter P (drop n ys)"
    by (metis append_take_drop_id filter_append)
  then show ?thesis by (metis prefixI)
qed

lemma sort_by_relevance_stable:
  "filter (\<lambda>p. relevanceScore p = Some k) (sort_by_relevance xs)
     = filter (\<lambda>p. relevanceScore p = Some k) xs"
proof -
  let ?f = "\<lambda>p. - sort_score p"
  let ?P = "\<lambda>p. relevanceScore p = Some k"
  have imp: "?P p \<Longrightarrow> ?f p = - k" for p by (simp add: sort_score_def)
  have "filter ?P ys = filter ?P (filter (\<lambda>y. ?f y = - k) ys)" for ys
    using imp by (auto intro: filter_cong)
  then have "filter ?P (sort_key ?f xs) = filter ?P (filter (\<lambda>y. ?f y = - k) (sort_key ?f xs))"
    by blast
  also have "\<dots> = filter ?P (filter (\<lambda>y. ?f y = - k) xs)" by (simp only: sort_key_stable)
  also have "\<dots> = filter ?P xs" using imp by (auto intro: filter_cong)
  finally show ?thesis by (simp add: sort_by_relevance_def)
qed

lemma sort_by_relevance_set [simp]: "set (sort_by_relevance xs) = set xs"
  by (simp add: sort_by_relevance_def)

lemma sort_by_relevance_length [simp]: "length (sort_by_relevance xs) = length xs"
  by (simp add: sort_by_relevance_def)

lemma sort_by_relevance_distinct_ids:
  "distinct (map pid xs) \<Longrightarrow> distinct (map pid (sort_by_relevance xs))"
  by (simp add: distinct_map sort_by_relevance_def)

lemma take_distinct_ids: "distinct (map pid xs) \<Longrightarrow> distinct (map pid (take n xs))"
  by (simp add: take_map [symmetric])

lemma ranked_pollutant:
  "\<not> bref_mode sel M \<Longrightarrow>
   rankedPatents tp sel M idx n = take n (sort_by_relevance (filter above_threshold (pollutant_scored tp)))"
  by (auto simp: rankedPatents_def bref_mode_def pollutant_scored_def sort_by_relevance_def)

lemma ranked_bref:
  "bref_mode sel M \<Longrightarrow>
   rankedPatents tp sel M idx n =
     (if tp = [] \<or> getBrefRelevantPatentCount sel M = 0 then []
      else take n (sort_by_relevance (uniquePatents (bref_union tp sel M idx))))"
  by (auto simp: rankedPatents_def bref_mode_def bref_union_def Let_def)

lemma consider_cases:
  "consider_matrix_patent tp key idx acc (i, row) =
     (if matrix_only tp key idx (i, row)
      then acc @ [matrix_patent i (the (idx i)) key (the (map_of row key))] else acc)"
  by (auto simp: consider_matrix_patent_def matrix_only_def counts_for_def split: option.splits)

lemma brp_fold_ids:
  "map pid (foldl (consider_matrix_patent tp key idx) acc M)
     = map pid acc @ map fst (filter (matrix_only tp key idx) M)"
proof (induction M arbitrary: acc)
  case Nil
  then show ?case by simp
next
  case (Cons e M)
  obtain i row where e: "e = (i, row)" by (cases e)
  show ?case unfolding e
    by (simp add: Cons.IH consider_cases matrix_patent_def)
qed

lemma brp_fold_above:
  "\<forall>p \<in> set acc. above_threshold p \<Longrightarrow>
   \<forall>p \<in> set (foldl (consider_matrix_patent tp key idx) acc M). above_threshold p"
proof (induction M arbitrary: acc)
  case Nil
  then show ?case by simp
next
  case (Cons e M)
  obtain i row where e: "e = (i, row)" by (cases e)
  have "\<forall>p \<in> set (consider_matrix_patent tp key idx acc (i, row)). above_threshold p"
    using Cons.prems
    by (auto simp: consider_matrix_patent_def above_threshold_def matrix_patent_def
          counts_for_def split: option.splits)
  from Cons.IH [OF this] show ?case unfolding e by simp
qed

lemma brp_above: "\<forall>p \<in> set (brefRelevantPatents tp sel M idx). above_threshold p"
proof (cases idx)
  case None
  then show ?thesis by (simp add: brefRelevantPatents_def)
next
  case (Some ix)
  have "\<forall>p \<in> set ([] :: patent list). above_threshold p" by simp
  from brp_fold_above [OF this] show ?thesis by (simp add: brefRelevantPatents_def Some)
qed

lemma brp_ids:
  "map pid (brefRelevantPatents tp sel M idx) =
     (case idx of None \<Rightarrow> []
      | Some ix \<Rightarrow> map fst (filter (matrix_only tp (key_of (jprop sel ''id'')) ix) M))"
  unfolding brefRelevantPatents_def
  by (cases idx) (simp_all add: brp_fold_ids)

lemma brp_ids_fresh: "i \<in> set (map pid (brefRelevantPatents tp sel M idx)) \<Longrightarrow> i \<notin> pid ` set tp"
  by (auto simp: brp_ids matrix_only_def list_ex_iff split: option.splits)

lemma brp_ids_distinct:
  "distinct (map fst M) \<Longrightarrow> distinct (map pid (brefRelevantPatents tp sel M idx))"
  by (auto simp: brp_ids distinct_map_filter split: option.splits)

lemma tpws_ids: "set (map pid (topPatentsWithScores tp sel M)) \<subseteq> pid ` set tp"
  by (auto simp: topPatentsWithScores_def)

lemma tpws_ids_distinct:
  assumes "distinct (map pid tp)"
  shows "distinct (map pid (topPatentsWithScores tp sel M))"
proof -
  have "map pid (topPatentsWithScores tp sel M)
      = map pid (filter (\<lambda>p. above_threshold (p\<lparr>relevanceScore :=
                      Some (getRelevanceScore M p (jprop sel ''id''))\<rparr>)) tp)"
    by (simp add: topPatentsWithScores_def filter_map comp_def)
  then show ?thesis using assms by (simp add: distinct_map_filter)
qed

lemma bref_union_distinct:
  "distinct (map pid tp) \<Longrightarrow> distinct (map fst M) \<Longrightarrow> distinct (map pid (bref_union tp sel M idx))"
  using tpws_ids [of tp sel M] brp_ids_fresh [of _ tp sel M idx]
  by (auto simp: bref_union_def tpws_ids_distinct brp_ids_distinct)

lemma bref_union_above: "\<forall>p \<in> set (bref_union tp sel M idx). above_threshold p"
  using brp_above by (auto simp: bref_union_def topPatentsWithScores_def)

lemma ranked_above: "p \<in> set (rankedPatents tp sel M idx n) \<Longrightarrow> above_threshold p"
proof (cases "bref_mode sel M")
  case True
  assume "p \<in> set (rankedPatents tp sel M idx n)"
  then have "p \<in> set (uniquePatents (bref_union tp sel M idx))"
    by (auto simp: ranked_bref [OF True] split: if_splits dest: in_set_takeD)
  with uniquePatents_set bref_union_above show ?thesis by blast
next
  case False
  assume "p \<in> set (rankedPatents tp sel M idx n)"
  then show ?thesis by (auto simp: ranked_pollutant [OF False] dest: in_set_takeD)
qed

lemma ranked_length: "length (rankedPatents tp sel M idx n) \<le> n"
  by (cases "bref_mode sel M") (simp_all add: ranked_bref ranked_pollutant)

lemma ranked_stable_pollutant:
  assumes "\<not> bref_mode sel M"
  shows "prefix (filter (\<lambda>p. relevanceScore p = Some k) (rankedPatents tp sel M idx n))
                (filter (\<lambda>p. relevanceScore p = Some k) (pollutant_scored tp))"
proof -
  let ?P = "\<lambda>p. relevanceScore p = Some k"
  have "prefix (filter ?P (rankedPatents tp sel M idx n))
               (filter ?P (sort_by_relevance (filter above_threshold (pollutant_scored tp))))"
    unfolding ranked_pollutant [OF assms] by (rule filter_take_prefix)
  then have 1: "prefix (filter ?P (rankedPatents tp sel M idx n))
                   (filter ?P (filter above_threshold (pollutant_scored tp)))"
    by (simp only: sort_by_relevance_stable)
  show ?thesis
  proof (cases "k \<ge> RELIABILITY_THRESHOLD")
    case True
    then have "filter ?P (filter above_threshold xs) = filter ?P xs" for xs
      by (auto simp: above_threshold_def intro: filter_cong)
    with 1 show ?thesis by simp
  next
    case False
    then have "filter ?P (filter above_threshold xs) = []" for xs
      by (auto simp: above_threshold_def filter_empty_conv)
    with 1 show ?thesis by simp
  qed
qed

lemma ranked_stable_bref:
  assumes "bref_mode sel M"
  shows "prefix (filter (\<lambda>p. relevanceScore p = Some k) (rankedPatents tp sel M idx n))
                (filter (\<lambda>p. relevanceScore p = Some k) (uniquePatents (bref_union tp sel M idx)))"
proof (cases "tp = [] \<or> getBrefRelevantPatentCount sel M = 0")
  case True
  then show ?thesis by (simp add: ranked_bref [OF assms])
next
  case False
  let ?P = "\<lambda>p. relevanceScore p = Some k"
  have "prefix (filter ?P (rankedPatents tp sel M idx n))
               (filter ?P (sort_by_relevance (uniquePatents (bref_union tp sel M idx))))"
    using False unfolding ranked_bref [OF assms] by (simp add: filter_take_prefix)
  then show ?thesis by (simp only: sort_by_relevance_stable)
qed

lemma ranked_distinct_bref:
  assumes "bref_mode sel M"
  shows "distinct (map pid (rankedPatents tp sel M idx n))"
  unfolding ranked_bref [OF assms]
  by (simp add: take_distinct_ids sort_by_relevance_distinct_ids uniquePatents_distinct)

subsection \<open>The claims about the ranking\<close>

lemmas ranking_defs =
  rankedPatents_def getBrefRelevantPatentCount_def topPatentsWithScores_def
  brefRelevantPatents_def consider_matrix_patent_def matrix_patent_def uniquePatents_def
  new_Map_def sort_by_relevance_def sort_score_def above_threshold_def counts_for_def
  getRelevanceScore_def RELIABILITY_THRESHOLD_def bref_mode_def pollutant_scored_def
  bref_union_def

text \<open>
  C9. With an empty \<open>topPatents\<close> list the ranking returns the empty list, whatever the
  selected node, the relevance matrix and the patent index are: its first statement
  returns before the matrix is looked at. The instance below has a matrix row scoring
  0.8 against the selected node.
\<close>

theorem ranked_empty_top: "rankedPatents [] selBref brefRelevanceScores patentIndex maxPatents = []"
  by (simp add: rankedPatents_def)

theorem ranked_empty_top_witness:
  "getBrefRelevantPatentCount bref_B matrix_p2 = 1 \<and>
   rankedPatents [] bref_B matrix_p2 (Some index_p2) 5 = []"
  using ranked_empty_top [of bref_B matrix_p2 "Some index_p2" 5]
  by (simp add: getBrefRelevantPatentCount_def counts_for_def RELIABILITY_THRESHOLD_def
        bref_B_def matrix_p2_def)


lemma count_fold:
  "foldl (\<lambda>count (patentId, patentBrefScores).
            if counts_for (map_of patentBrefScores key) then count + 1 else count) c M
   = c + int (length (filter (\<lambda>(i, row). counts_for (map_of row key)) M))"
  by (induction M arbitrary: c) (auto split: prod.splits)

lemma counts_for_iff:
  "counts_for r = (case r of None \<Rightarrow> False | Some s \<Rightarrow> s \<ge> RELIABILITY_THRESHOLD)"
  by (auto simp: counts_for_def RELIABILITY_THRESHOLD_def split: option.splits)



text \<open>
  C3, as stated, fails on ties when a patent id repeats in \<open>topPatents\<close>: the list
  holds an entry of p1 (0.9 for the node), the entry of p2 (0.8) and a second entry of p1
  (0.8). The second entry of p1 replaces the first in the first's place, so it is
  returned before the entry of p2, which was met earlier and has the same score.
\<close>

theorem tie_order_counterexample:
  "rankedPatents [tie_a, tie_b, tie_c] bref_B matrix_p2 None 5 =
     [tie_c\<lparr>relevanceScore := Some (8 / 10)\<rparr>, tie_b\<lparr>relevanceScore := Some (8 / 10)\<rparr>]"
  by (simp add: ranking_defs bref_B_def matrix_p2_def tie_a_def tie_b_def tie_c_def)

text \<open>
  C3 (amended). For every input the returned list has at most \<open>maxPatents\<close> entries and
  every entry has a \<open>relevanceScore\<close> of at least 0.68. Entries with equal
  \<open>relevanceScore\<close> appear in the order of the list that is sorted (the sort is stable):
  in the pollutant-based mode that is the order of \<open>topPatents\<close>; in the node-based mode it
  is the order of the de-duplicated union, which is the union itself (the top patents
  in their order, then the matrix-only patents in the matrix's order) when no id repeats
  in \<open>topPatents\<close> or among the matrix's rows.
\<close>

theorem ranked_bounds:
  "length (rankedPatents topPatents selBref M patentIndex maxPatents) \<le> maxPatents \<and>
   (\<forall>p \<in> set (rankedPatents topPatents selBref M patentIndex maxPatents).
      \<exists>s. relevanceScore p = Some s \<and> s \<ge> RELIABILITY_THRESHOLD) \<and>
   (\<not> bref_mode selBref M \<longrightarrow>
      prefix (filter (\<lambda>p. relevanceScore p = Some k)
                (rankedPatents topPatents selBref M patentIndex maxPatents))
             (filter (\<lambda>p. relevanceScore p = Some k) (pollutant_scored topPatents))) \<and>
   (bref_mode selBref M \<longrightarrow>
      prefix (filter (\<lambda>p. relevanceScore p = Some k)
                (rankedPatents topPatents selBref M patentIndex maxPatents))
             (filter (\<lambda>p. relevanceScore p = Some k)
                (uniquePatents (bref_union topPatents selBref M patentIndex)))) \<and>
   (distinct (map pid topPatents) \<and> distinct (map fst M) \<longrightarrow>
      uniquePatents (bref_union topPatents selBref M patentIndex)
        = bref_union topPatents selBref M patentIndex)"
proof -
  have b: "\<forall>p \<in> set (rankedPatents topPatents selBref M patentIndex maxPatents).
      \<exists>s. relevanceScore p = Some s \<and> s \<ge> RELIABILITY_THRESHOLD"
  proof
    fix p
    assume "p \<in> set (rankedPatents topPatents selBref M patentIndex maxPatents)"
    then have "above_threshold p" by (rule ranked_above)
    then show "\<exists>s. relevanceScore p = Some s \<and> s \<ge> RELIABILITY_THRESHOLD"
      by (cases "relevanceScore p") (auto simp: above_threshold_def)
  qed
  have a: "length (rankedPatents topPatents selBref M patentIndex maxPatents) \<le> maxPatents"
    by (rule ranked_length)
  have c: "\<not> bref_mode selBref M \<longrightarrow>
      prefix (filter (\<lambda>p. relevanceScore p = Some k)
                (rankedPatents topPatents selBref M patentIndex maxPatents))
             (filter (\<lambda>p. relevanceScore p = Some k) (pollutant_scored topPatents))"
    by (simp add: ranked_stable_pollutant)
  have d: "bref_mode selBref M \<longrightarrow>
      prefix (filter (\<lambda>p. relevanceScore p = Some k)
                (rankedPatents topPatents selBref M patentIndex maxPatents))
             (filter (\<lambda>p. relevanceScore p = Some k)
                (uniquePatents (bref_union topPatents selBref M patentIndex)))"
    by (simp add: ranked_stable_bref)
  have e: "distinct (map pid topPatents) \<and> distinct (map fst M) \<longrightarrow>
      uniquePatents (bref_union topPatents selBref M patentIndex)
        = bref_union topPatents selBref M patentIndex"
    by (simp add: uniquePatents_id bref_union_distinct)
  show ?thesis by (intro conjI a b c d e)
qed

theorem ranked_bounds_witness:
  "length (rankedPatents [top_p1, low_p2, top_p3] JNull [] None 1) \<le> 1 \<and>
   rankedPatents [top_p1, low_p2, top_p3] JNull [] None 5 =
     [top_p1\<lparr>relevanceScore := Some (9 / 10)\<rparr>, top_p3\<lparr>relevanceScore := Some (9 / 10)\<rparr>] \<and>
   \<not> bref_mode JNull [] \<and>
   prefix [top_p1\<lparr>relevanceScore := Some (9 / 10)\<rparr>, top_p3\<lparr>relevanceScore := Some (9 / 10)\<rparr>]
     (filter (\<lambda>p. relevanceScore p = Some (9 / 10)) (pollutant_scored [top_p1, low_p2, top_p3]))"
  using ranked_bounds [of "[top_p1, low_p2, top_p3]" JNull "[]" None 1 "9 / 10"]
        ranked_bounds [of "[top_p1, low_p2, top_p3]" JNull "[]" None 5 "9 / 10"]
  by (simp add: ranking_defs top_p1_def low_p2_def top_p3_def)

text \<open>
  C4, as stated, fails on "first occurrence wins": of two entries of p1 in
  \<open>topPatents\<close> (0.9 and 0.8 for the node) the ranking returns the second.
\<close>

theorem last_entry_wins_counterexample:
  "rankedPatents [tie_a, tie_c] bref_B matrix_p2 None 5 = [tie_c\<lparr>relevanceScore := Some (8 / 10)\<rparr>]"
  by (simp add: ranking_defs bref_B_def matrix_p2_def tie_a_def tie_c_def)

text \<open>
  C4 (amended). The union of the threshold-filtered top patents and the matrix-only
  patents is de-duplicated by patent id: the ids of the result are the ids of the union
  in the order of their first occurrence, each once, and the entry kept for an id is the
  last entry of that id in the union. Consequently, in the node-based mode (a node with an
  id selected, a non-empty matrix) no patent id appears twice in the returned list, and
  every returned entry is one of the de-duplicated union.
\<close>

theorem ranked_dedup:
  "map pid (uniquePatents (bref_union topPatents selBref M patentIndex))
     = rev (remdups (rev (map pid (bref_union topPatents selBref M patentIndex)))) \<and>
   (\<forall>p \<in> set (uniquePatents (bref_union topPatents selBref M patentIndex)).
      filter (\<lambda>q. pid q = pid p) (bref_union topPatents selBref M patentIndex) \<noteq> [] \<and>
      p = last (filter (\<lambda>q. pid q = pid p) (bref_union topPatents selBref M patentIndex))) \<and>
   (bref_mode selBref M \<longrightarrow>
      distinct (map pid (rankedPatents topPatents selBref M patentIndex maxPatents)) \<and>
      set (rankedPatents topPatents selBref M patentIndex maxPatents)
        \<subseteq> set (uniquePatents (bref_union topPatents selBref M patentIndex)))"
proof -
  have s: "bref_mode selBref M \<Longrightarrow>
      set (rankedPatents topPatents selBref M patentIndex maxPatents)
        \<subseteq> set (uniquePatents (bref_union topPatents selBref M patentIndex))"
    by (auto simp: ranked_bref dest: in_set_takeD split: if_splits)
  have a: "map pid (uniquePatents (bref_union topPatents selBref M patentIndex))
     = rev (remdups (rev (map pid (bref_union topPatents selBref M patentIndex))))"
    by (rule uniquePatents_ids)
  have b: "\<forall>p \<in> set (uniquePatents (bref_union topPatents selBref M patentIndex)).
      filter (\<lambda>q. pid q = pid p) (bref_union topPatents selBref M patentIndex) \<noteq> [] \<and>
      p = last (filter (\<lambda>q. pid q = pid p) (bref_union topPatents selBref M patentIndex))"
    using uniquePatents_last by blast
  have c: "bref_mode selBref M \<longrightarrow>
      distinct (map pid (rankedPatents topPatents selBref M patentIndex maxPatents)) \<and>
      set (rankedPatents topPatents selBref M patentIndex maxPatents)
        \<subseteq> set (uniquePatents (bref_union topPatents selBref M patentIndex))"
    using ranked_distinct_bref s by blast
  show ?thesis by (intro conjI a b c)
qed

theorem ranked_dedup_witness:
  "bref_mode bref_B matrix_p2 \<and>
   bref_union [tie_a, tie_c] bref_B matrix_p2 None
     = [tie_a\<lparr>relevanceScore := Some (9 / 10)\<rparr>, tie_c\<lparr>relevanceScore := Some (8 / 10)\<rparr>] \<and>
   uniquePatents (bref_union [tie_a, tie_c] bref_B matrix_p2 None)
     = [tie_c\<lparr>relevanceScore := Some (8 / 10)\<rparr>] \<and>
   distinct (map pid (rankedPatents [tie_a, tie_c] bref_B matrix_p2 None 5))"
  using ranked_dedup [of "[tie_a, tie_c]" bref_B matrix_p2 None 5]
  by (simp add: ranking_defs bref_B_def matrix_p2_def tie_a_def tie_c_def)

section \<open>Direct counts\<close>

lemma count_direct_at:
  "count_direct R dm (b, s) n =
     (if b = n \<and> s \<ge> RELIABILITY_THRESHOLD \<and> b \<in> R then Some (count_or_0 dm n + 1) else dm n)"
  by (simp add: count_direct_def)

lemma row_counts:
  "foldl (count_direct R) dm row n =
     (let c = length (filter (\<lambda>(b, s). b = n \<and> s \<ge> RELIABILITY_THRESHOLD \<and> b \<in> R) row)
      in if c = 0 then dm n else Some (count_or_0 dm n + c))"
proof (induction row arbitrary: dm)
  case Nil
  then show ?case by simp
next
  case (Cons e row)
  obtain b s where e: "e = (b, s)" by (cases e)
  let ?P = "\<lambda>(b, s). b = n \<and> s \<ge> RELIABILITY_THRESHOLD \<and> b \<in> R"
  let ?dm = "count_direct R dm (b, s)"
  have ih: "foldl (count_direct R) ?dm row n =
     (let c = length (filter ?P row) in if c = 0 then ?dm n else Some (count_or_0 ?dm n + c))"
    by (rule Cons.IH)
  show ?case
  proof (cases "b = n \<and> s \<ge> RELIABILITY_THRESHOLD \<and> b \<in> R")
    case True
    then have bn: "b = n" and ts: "s \<ge> RELIABILITY_THRESHOLD" and nR: "n \<in> R" by auto
    have 1: "count_direct R dm (n, s) n = Some (count_or_0 dm n + 1)"
      using ts nR by (simp add: count_direct_at)
    then have 2: "count_or_0 (count_direct R dm (n, s)) n = count_or_0 dm n + 1"
      by (simp add: count_or_0_def)
    have 3: "length (filter ?P ((n, s) # row)) = length (filter ?P row) + 1"
      using ts nR by simp
    show ?thesis unfolding e bn foldl_Cons ih [unfolded bn] 1 2 3
      by (simp add: Let_def)
  next
    case False
    then have 1: "?dm n = dm n"
      by (auto simp: count_direct_at)
    then have 2: "count_or_0 ?dm n = count_or_0 dm n"
      by (simp add: count_or_0_def)
    have 3: "length (filter ?P ((b, s) # row)) = length (filter ?P row)"
      using False by simp
    show ?thesis unfolding e foldl_Cons ih 1 2 3 by (simp add: Let_def)
  qed
qed

lemma counted_row:
  "length (filter (counted R n) (map (\<lambda>(nodeId, s). (p, nodeId, s)) row))
     = length (filter (\<lambda>(b, s). b = n \<and> s \<ge> RELIABILITY_THRESHOLD \<and> b \<in> R) row)"
  by (induction row) (auto simp: counted_def)

lemma matrix_counts:
  "foldl (\<lambda>directMatches (patentId, patentBrefScores).
            foldl (count_direct R) directMatches patentBrefScores) dm M n =
     (let c = length (filter (counted R n) (matrix_entries M))
      in if c = 0 then dm n else Some (count_or_0 dm n + c))"
proof (induction M arbitrary: dm)
  case Nil
  then show ?case by (simp add: matrix_entries_def)
next
  case (Cons e M)
  obtain p row where e: "e = (p, row)" by (cases e)
  let ?P = "\<lambda>(b, s). b = n \<and> s \<ge> RELIABILITY_THRESHOLD \<and> b \<in> R"
  let ?dm = "foldl (count_direct R) dm row"
  let ?r = "length (filter ?P row)"
  let ?m = "length (filter (counted R n) (matrix_entries M))"
  have f: "length (filter (counted R n) (map (\<lambda>(nodeId, s). (p, nodeId, s)) row)) = ?r"
    by (rule counted_row)
  have m: "length (filter (counted R n) (matrix_entries ((p, row) # M))) = ?r + ?m"
    by (simp only: matrix_entries_def list.map prod.case concat.simps filter_append
          length_append f)
  have ih: "foldl (\<lambda>directMatches (patentId, patentBrefScores).
            foldl (count_direct R) directMatches patentBrefScores) ?dm M n =
     (if ?m = 0 then ?dm n else Some (count_or_0 ?dm n + ?m))"
    using Cons.IH [of ?dm] by (simp only: Let_def)
  have r: "?dm n = (if ?r = 0 then dm n else Some (count_or_0 dm n + ?r))"
    using row_counts [of R dm row n] by (simp only: Let_def)
  have r': "count_or_0 ?dm n = count_or_0 dm n + ?r"
    unfolding count_or_0_def [of ?dm] r by (simp add: count_or_0_def)
  have "foldl (\<lambda>directMatches (patentId, patentBrefScores).
            foldl (count_direct R) directMatches patentBrefScores) dm ((p, row) # M) n =
     (if ?m = 0 then ?dm n else Some (count_or_0 ?dm n + ?m))"
    using ih by (simp only: foldl_Cons prod.case)
  also have "\<dots> = (if ?r + ?m = 0 then dm n else Some (count_or_0 dm n + (?r + ?m)))"
    unfolding r r' by simp
  finally show ?case unfolding e m [symmetric] by (simp only: Let_def)
qed



lemmas count_defs =
  calculateAllPatentCounts_def directMatchCounts_def count_direct_def count_or_0_def
  RELIABILITY_THRESHOLD_def fixture_matrix_def fixture_relevant_def fixture_children_def
  fixture_hierarchy_def fixture_hierarchy_with_id_def

text \<open>
  C6, as stated, fails on the cumulative counts: in the fixture the object under the key
  \<open>A\<close> has children but no \<open>id\<close>, so the traversal passes through it and stores
  nothing for \<open>A\<close>. The table it produces has the entries of A1, A2a and A2 only.
\<close>

theorem fixture_counterexample:
  "calculateAllPatentCounts (Some fixture_matrix) fixture_hierarchy fixture_relevant
     = Some [''A1'' \<mapsto> 1, ''A2a'' \<mapsto> 1, ''A2'' \<mapsto> 1] \<and>
   [''A1'' \<mapsto> 1, ''A2a'' \<mapsto> 1, ''A2'' \<mapsto> 1 :: nat] ''A'' = None"
  by (simp add: count_defs)

text \<open>
  C6 (amended). On the fixture hierarchy, with the fixture matrix, threshold 0.68 and A,
  A1, A2, A2a relevant, the direct counts are \<open>{A1: 1, A2a: 1}\<close> and the cumulative counts
  are \<open>{A1: 1, A2a: 1, A2: 1}\<close>, without an entry for A. When the object under the key A
  also carries the id \<open>A\<close>, the cumulative counts are \<open>{A1: 1, A2a: 1, A2: 1, A: 2}\<close>.
\<close>

theorem fixture_counts:
  "directMatchCounts fixture_matrix fixture_relevant = [''A1'' \<mapsto> 1, ''A2a'' \<mapsto> 1] \<and>
   calculateAllPatentCounts (Some fixture_matrix) fixture_hierarchy fixture_relevant
     = Some [''A1'' \<mapsto> 1, ''A2a'' \<mapsto> 1, ''A2'' \<mapsto> 1] \<and>
   calculateAllPatentCounts (Some fixture_matrix) fixture_hierarchy_with_id fixture_relevant
     = Some [''A1'' \<mapsto> 1, ''A2a'' \<mapsto> 1, ''A2'' \<mapsto> 1, ''A'' \<mapsto> 2]"
  by (simp add: count_defs numeral_2_eq_2)

section \<open>Cumulative counts\<close>

subsection \<open>The table during the traversal\<close>

text \<open>
  \<open>Good D R vs res res'\<close> relates the table before and after a part of the traversal
  whose visits are \<open>vs\<close>: entries outside the stored identifiers are untouched, and
  every stored identifier holds the pure fold of its node.
\<close>

lemma stored_subset: "stored vs \<subseteq> fst ` set vs"
  by (force simp: stored_def)

lemma stored_append [simp]: "stored (vs @ ws) = stored vs \<union> stored ws"
  by (auto simp: stored_def)

lemma stored_nil [simp]: "stored [] = {}"
  by (simp add: stored_def)

lemma good_nil: "Good D R [] res res"
  by (simp add: Good_def)

lemma good_dom: "Good D R vs res res1 \<Longrightarrow> dom res1 \<subseteq> dom res \<union> fst ` set vs"
proof
  fix k
  assume g: "Good D R vs res res1" and k: "k \<in> dom res1"
  show "k \<in> dom res \<union> fst ` set vs"
  proof (cases "k \<in> stored vs")
    case True
    with stored_subset show ?thesis by blast
  next
    case False
    with g have "res1 k = res k" by (simp add: Good_def)
    with k show ?thesis by (simp add: dom_def)
  qed
qed

lemma good_seq:
  assumes 1: "Good D R vs1 res res1" and 2: "Good D R vs2 res1 res2"
    and d: "distinct (map fst (vs1 @ vs2))"
  shows "Good D R (vs1 @ vs2) res res2"
  unfolding Good_def
proof (intro conjI allI impI)
  fix k
  assume "k \<notin> stored (vs1 @ vs2)"
  then have "k \<notin> stored vs1" "k \<notin> stored vs2" by simp_all
  with 1 2 show "res2 k = res k" by (simp add: Good_def)
next
  fix k m
  assume km: "(k, Some m) \<in> set (vs1 @ vs2)"
  have disj: "fst ` set vs1 \<inter> fst ` set vs2 = {}" using d by auto
  have "k = nkey m \<and> has_id m \<and> res2 k = Some (cumulative D R m)"
  proof (cases "(k, Some m) \<in> set vs1")
    case True
    then have "k \<in> fst ` set vs1" by force
    with disj have "k \<notin> fst ` set vs2" by blast
    with stored_subset have "k \<notin> stored vs2" by blast
    with 2 have "res2 k = res1 k" by (simp add: Good_def)
    moreover from 1 True have "k = nkey m \<and> has_id m \<and> res1 k = Some (cumulative D R m)"
      by (simp add: Good_def)
    ultimately show ?thesis by auto
  next
    case False
    with km have "(k, Some m) \<in> set vs2" by simp
    with 2 show ?thesis by (simp add: Good_def)
  qed
  then show "k = nkey m" "has_id m" "res2 k = Some (cumulative D R m)" by blast+
qed

lemma next_disjoint:
  assumes "Good D R vs1 res res1" and "distinct (map fst (vs1 @ vs2))"
    and "fst ` set (vs1 @ vs2) \<inter> dom res = {}"
  shows "fst ` set vs2 \<inter> dom res1 = {}"
proof (rule ccontr)
  assume "fst ` set vs2 \<inter> dom res1 \<noteq> {}"
  then obtain k where k2: "k \<in> fst ` set vs2" and kd: "k \<in> dom res1" by blast
  from good_dom [OF assms(1)] kd have "k \<in> dom res \<or> k \<in> fst ` set vs1" by blast
  moreover have "k \<notin> dom res" using assms(3) k2 by (simp add: image_Un disjoint_iff)
  moreover have "fst ` set vs1 \<inter> fst ` set vs2 = {}" using assms(2) by simp
  ultimately show False using k2 by blast
qed

lemma good_store:
  assumes g: "Good D R vs res res1" and k: "k \<notin> fst ` set vs"
    and m: "k = nkey m" "has_id m"
  shows "Good D R (vs @ [(k, Some m)]) res (res1(k \<mapsto> cumulative D R m))"
  unfolding Good_def
proof (intro conjI allI impI)
  fix k'
  assume "k' \<notin> stored (vs @ [(k, Some m)])"
  then have "k' \<notin> stored vs" "k' \<noteq> k" by (auto simp: stored_def)
  with g show "(res1(k \<mapsto> cumulative D R m)) k' = res k'" by (simp add: Good_def)
next
  fix k' m'
  assume km: "(k', Some m') \<in> set (vs @ [(k, Some m)])"
  have "k' = nkey m' \<and> has_id m' \<and> (res1(k \<mapsto> cumulative D R m)) k' = Some (cumulative D R m')"
  proof (cases "(k', Some m') \<in> set vs")
    case True
    then have "k' \<in> fst ` set vs" by force
    with k have "k' \<noteq> k" by blast
    with g True show ?thesis by (simp add: Good_def)
  next
    case False
    with km have "k' = k" "m' = m" by simp_all
    with m show ?thesis by simp
  qed
  then show "k' = nkey m'" "has_id m'"
    "(res1(k \<mapsto> cumulative D R m)) k' = Some (cumulative D R m')" by blast+
qed

lemma good_fallback: "Good D R vs res res1 \<Longrightarrow> Good D R (vs @ [(k, None)]) res res1"
  by (simp add: Good_def stored_def)

lemma has_id_obj: "has_id c \<Longrightarrow> \<exists>ps. c = JObj ps \<and> truthy_opt (map_of ps ''id'')"
  by (cases c) (simp_all add: has_id_def)

lemma visits_id_last: "has_id c \<Longrightarrow> (nkey c, Some c) \<in> set (visits R c)"
proof -
  assume "has_id c"
  then obtain ps where c: "c = JObj ps" and t: "truthy_opt (map_of ps ''id'')"
    using has_id_obj by blast
  show ?thesis unfolding c using t by (simp add: nkey_def)
qed

lemma good_read:
  assumes "Good D R (visits R c) res res1" and "has_id c"
  shows "count_or_0 res1 (nkey c) = cumulative D R c"
proof -
  from visits_id_last [OF assms(2)] assms(1) have "res1 (nkey c) = Some (cumulative D R c)"
    unfolding Good_def by blast
  then show ?thesis by (simp add: count_or_0_def)
qed

lemma cumulative_obj:
  "cumulative D R (JObj ps) =
     count_or_0 D (key_of (map_of ps ''id'')) +
     sum_list (map (cumulative D R)
       (filter (\<lambda>c. has_id c \<and> nkey c \<in> R)
          (case map_of ps ''children'' of
             Some (JArr cs) \<Rightarrow> cs
           | Some (JObj es) \<Rightarrow> map snd es
           | _ \<Rightarrow> [])))"
  by (subst cumulative.simps) (simp add: nkey_def relevant_children_def children_of_def)

lemma cc_good:
  "calculateCumulativeCounts n D R res = Some res' \<Longrightarrow>
     distinct (map fst (visits R n)) \<Longrightarrow> fst ` set (visits R n) \<inter> dom res = {} \<Longrightarrow>
     Good D R (visits R n) res res'"
  and cc_each_good:
  "cc_each ns D R res = Some res' \<Longrightarrow>
     distinct (map fst (visits_each R ns)) \<Longrightarrow> fst ` set (visits_each R ns) \<inter> dom res = {} \<Longrightarrow>
     Good D R (visits_each R ns) res res'"
  and cc_values_good:
  "cc_values ps D R res = Some res' \<Longrightarrow>
     distinct (map fst (visits_values R ps)) \<Longrightarrow> fst ` set (visits_values R ps) \<inter> dom res = {} \<Longrightarrow>
     Good D R (visits_values R ps) res res'"
  and cc_array_good:
  "cc_array_children cs D R c0 res = Some (cnt, res') \<Longrightarrow>
     distinct (map fst (visits_array_children R cs)) \<Longrightarrow>
     fst ` set (visits_array_children R cs) \<inter> dom res = {} \<Longrightarrow>
     Good D R (visits_array_children R cs) res res' \<and>
     cnt = c0 + sum_list (map (cumulative D R) (filter (\<lambda>c. has_id c \<and> nkey c \<in> R) cs))"
  and cc_object_good:
  "cc_object_children es D R c0 res = Some (cnt, res') \<Longrightarrow>
     distinct (map fst (visits_object_children R es)) \<Longrightarrow>
     fst ` set (visits_object_children R es) \<inter> dom res = {} \<Longrightarrow>
     Good D R (visits_object_children R es) res res' \<and>
     cnt = c0 + sum_list (map (cumulative D R) (filter (\<lambda>c. has_id c \<and> nkey c \<in> R) (map snd es)))"
proof (induction R n and R ns and R ps and R cs and R es
    arbitrary: res res' and res res' and res res' and c0 res cnt res' and c0 res cnt res'
    rule: visits_visits_each_visits_values_visits_array_children_visits_object_children.induct)
  case (1 R)
  then show ?case by (simp add: good_nil)
next
  case (2 R b)
  then show ?case by (simp add: good_nil)
next
  case (3 R s)
  then show ?case by (simp add: good_nil)
next
  case (4 R nodes)
  then show ?case by simp
next
  case (5 R ps)
  let ?id = "map_of ps ''id''" and ?ch = "map_of ps ''children''"
  show ?case
  proof (cases "truthy_opt ?id")
    case False
    show ?thesis
    proof (cases "truthy_opt ?ch")
      case True
      then obtain ch where ch: "?ch = Some ch" by (cases ?ch) auto
      have v: "visits R (JObj ps) = visits R ch" using False True ch by simp
      have r: "calculateCumulativeCounts ch D R res = Some res'"
        using "5.prems"(1) False True ch by simp
      show ?thesis unfolding v
        using "5.IH"(1) [OF False True ch r] "5.prems"(2,3) unfolding v by simp
    next
      case noch: False
      have v: "visits R (JObj ps) = visits_values R ps" using False noch by simp
      have r: "cc_values ps D R res = Some res'"
        using "5.prems"(1) False noch by simp
      show ?thesis unfolding v
        using "5.IH"(2) [OF False noch r] "5.prems"(2,3) unfolding v by simp
    qed
  next
    case True
    let ?k = "key_of ?id"
    have nn: "\<not> \<not> truthy_opt ?id" using True by simp
    have nk: "?k = nkey (JObj ps)" by (simp add: nkey_def)
    have hid: "has_id (JObj ps)" using True by (simp add: has_id_def)
    consider (arr) cs where "?ch = Some (JArr cs)"
      | (obj) es where "?ch = Some (JObj es)"
      | (other) "\<forall>cs. ?ch \<noteq> Some (JArr cs)" "\<forall>es. ?ch \<noteq> Some (JObj es)"
      by blast
    then show ?thesis
    proof cases
      case arr
      have v: "visits R (JObj ps) = visits_array_children R cs @ [(?k, Some (JObj ps))]"
        using True arr by simp
      from "5.prems"(1) True arr obtain cnt res1 where
        loop: "cc_array_children cs D R (count_or_0 D ?k) res = Some (cnt, res1)"
        and r: "res' = res1(?k \<mapsto> cnt)"
        by (auto simp: Let_def split: option.splits)
      have d: "distinct (map fst (visits_array_children R cs))"
        and kn: "?k \<notin> fst ` set (visits_array_children R cs)"
        and dj: "fst ` set (visits_array_children R cs) \<inter> dom res = {}"
        using "5.prems"(2,3) unfolding v by (auto simp: image_Un)
      from "5.IH"(3) [OF nn arr refl loop d dj]
      have g: "Good D R (visits_array_children R cs) res res1"
        and c: "cnt = count_or_0 D ?k
                  + sum_list (map (cumulative D R) (filter (\<lambda>c. has_id c \<and> nkey c \<in> R) cs))"
        by simp_all
      have cc: "cnt = cumulative D R (JObj ps)" unfolding c cumulative_obj using arr by simp
      show ?thesis unfolding v r cc by (rule good_store [OF g kn nk hid])
    next
      case obj
      have v: "visits R (JObj ps) = visits_object_children R es @ [(?k, Some (JObj ps))]"
        using True obj by simp
      from "5.prems"(1) True obj obtain cnt res1 where
        loop: "cc_object_children es D R (count_or_0 D ?k) res = Some (cnt, res1)"
        and r: "res' = res1(?k \<mapsto> cnt)"
        by (auto simp: Let_def split: option.splits)
      have d: "distinct (map fst (visits_object_children R es))"
        and kn: "?k \<notin> fst ` set (visits_object_children R es)"
        and dj: "fst ` set (visits_object_children R es) \<inter> dom res = {}"
        using "5.prems"(2,3) unfolding v by (auto simp: image_Un)
      from "5.IH"(4) [OF nn obj refl loop d dj]
      have g: "Good D R (visits_object_children R es) res res1"
        and c: "cnt = count_or_0 D ?k
                  + sum_list (map (cumulative D R)
                      (filter (\<lambda>c. has_id c \<and> nkey c \<in> R) (map snd es)))"
        by simp_all
      have cc: "cnt = cumulative D R (JObj ps)" unfolding c cumulative_obj using obj by simp
      show ?thesis unfolding v r cc by (rule good_store [OF g kn nk hid])
    next
      case other
      have v: "visits R (JObj ps) = [] @ [(?k, Some (JObj ps))]"
        using True other by (simp split: option.splits json.splits)
      have r: "res' = res(?k \<mapsto> count_or_0 D ?k)"
        using "5.prems"(1) True other by (auto simp: Let_def split: option.splits json.splits)
      have e: "(case ?ch of Some (JArr cs) \<Rightarrow> cs | Some (JObj es) \<Rightarrow> map snd es | _ \<Rightarrow> []) = []"
        using other by (auto split: option.splits json.splits)
      have cc: "count_or_0 D ?k = cumulative D R (JObj ps)"
        unfolding cumulative_obj e by simp
      have kn: "?k \<notin> fst ` set ([] :: (string \<times> json option) list)" by simp
      show ?thesis unfolding v r cc by (rule good_store [OF good_nil kn nk hid])
    qed
  qed
next
  case (6 R)
  then show ?case by (simp add: good_nil)
next
  case (7 R childNode nodes)
  from "7.prems"(1) obtain res1 where
    r1: "calculateCumulativeCounts childNode D R res = Some res1"
    and r2: "cc_each nodes D R res1 = Some res'"
    by (auto split: option.splits)
  have v: "visits_each R (childNode # nodes) = visits R childNode @ visits_each R nodes" by simp
  have d: "distinct (map fst (visits R childNode @ visits_each R nodes))"
    and dj: "fst ` set (visits R childNode @ visits_each R nodes) \<inter> dom res = {}"
    using "7.prems"(2,3) by simp_all
  have d1: "distinct (map fst (visits R childNode))" and d2: "distinct (map fst (visits_each R nodes))"
    using d by simp_all
  have dj1: "fst ` set (visits R childNode) \<inter> dom res = {}" using dj by (auto simp: image_Un)
  have g1: "Good D R (visits R childNode) res res1" by (rule "7.IH"(1) [OF r1 d1 dj1])
  have dj2: "fst ` set (visits_each R nodes) \<inter> dom res1 = {}" by (rule next_disjoint [OF g1 d dj])
  have g2: "Good D R (visits_each R nodes) res1 res'" by (rule "7.IH"(2) [OF r2 d2 dj2])
  show ?case unfolding v by (rule good_seq [OF g1 g2 d])
next
  case (8 R)
  then show ?case by (simp add: good_nil)
next
  case (9 R k childNode ps)
  show ?case
  proof (cases "truthy childNode \<and> typeof_object childNode")
    case True
    from "9.prems"(1) True obtain res1 where
      r1: "calculateCumulativeCounts childNode D R res = Some res1"
      and r2: "cc_values ps D R res1 = Some res'"
      by (auto split: option.splits)
    have v: "visits_values R ((k, childNode) # ps) = visits R childNode @ visits_values R ps"
      using True by simp
    have d: "distinct (map fst (visits R childNode @ visits_values R ps))"
      and dj: "fst ` set (visits R childNode @ visits_values R ps) \<inter> dom res = {}"
      using "9.prems"(2,3) unfolding v by simp_all
    have d1: "distinct (map fst (visits R childNode))" and d2: "distinct (map fst (visits_values R ps))"
      using d by simp_all
    have dj1: "fst ` set (visits R childNode) \<inter> dom res = {}" using dj by (auto simp: image_Un)
    have g1: "Good D R (visits R childNode) res res1" by (rule "9.IH"(1) [OF True r1 d1 dj1])
    have dj2: "fst ` set (visits_values R ps) \<inter> dom res1 = {}" by (rule next_disjoint [OF g1 d dj])
    have g2: "Good D R (visits_values R ps) res1 res'" by (rule "9.IH"(2) [OF r2 d2 dj2])
    show ?thesis unfolding v by (rule good_seq [OF g1 g2 d])
  next
    case False
    have v: "visits_values R ((k, childNode) # ps) = visits_values R ps" using False by auto
    have r: "cc_values ps D R res = Some res'" using "9.prems"(1) False by auto
    show ?thesis unfolding v using "9.IH"(2) [OF r] "9.prems"(2,3) unfolding v by simp
  qed
next
  case (10 R)
  then show ?case by (simp add: good_nil)
next
  case (11 R child cs)
  let ?c = "truthy_opt (jprop child ''id'') \<and> key_of (jprop child ''id'') \<in> R"
  have cn: "child \<noteq> JNull" using "11.prems"(1) by (auto split: if_splits)
  show ?case
  proof (cases ?c)
    case True
    then have hid: "has_id child" and kin: "nkey child \<in> R" by (simp_all add: has_id_def nkey_def)
    from "11.prems"(1) True cn obtain res1 where
      r1: "calculateCumulativeCounts child D R res = Some res1"
      and r2: "cc_array_children cs D R (c0 + count_or_0 res1 (nkey child)) res1 = Some (cnt, res')"
      by (auto simp: nkey_def split: option.splits)
    have v: "visits_array_children R (child # cs) = visits R child @ visits_array_children R cs"
      using True by simp
    have d: "distinct (map fst (visits R child @ visits_array_children R cs))"
      and dj: "fst ` set (visits R child @ visits_array_children R cs) \<inter> dom res = {}"
      using "11.prems"(2,3) unfolding v by simp_all
    have d1: "distinct (map fst (visits R child))"
      and d2: "distinct (map fst (visits_array_children R cs))"
      using d by simp_all
    have dj1: "fst ` set (visits R child) \<inter> dom res = {}" using dj by (auto simp: image_Un)
    have g1: "Good D R (visits R child) res res1" by (rule "11.IH"(1) [OF True r1 d1 dj1])
    have dj2: "fst ` set (visits_array_children R cs) \<inter> dom res1 = {}"
      by (rule next_disjoint [OF g1 d dj])
    from "11.IH"(2) [OF r2 d2 dj2]
    have g2: "Good D R (visits_array_children R cs) res1 res'"
      and c: "cnt = c0 + count_or_0 res1 (nkey child)
                + sum_list (map (cumulative D R) (filter (\<lambda>c. has_id c \<and> nkey c \<in> R) cs))"
      by simp_all
    have "cnt = c0 + sum_list (map (cumulative D R)
                    (filter (\<lambda>c. has_id c \<and> nkey c \<in> R) (child # cs)))"
      unfolding c good_read [OF g1 hid] using hid kin by simp
    with good_seq [OF g1 g2 d] show ?thesis unfolding v by simp
  next
    case False
    then have nf: "\<not> (has_id child \<and> nkey child \<in> R)" by (simp add: has_id_def nkey_def)
    have v: "visits_array_children R (child # cs) = visits_array_children R cs" using False by auto
    have r: "cc_array_children cs D R c0 res = Some (cnt, res')"
      using "11.prems"(1) False cn by (auto split: if_splits)
    have f: "filter (\<lambda>c. has_id c \<and> nkey c \<in> R) (child # cs)
              = filter (\<lambda>c. has_id c \<and> nkey c \<in> R) cs"
      using nf by auto
    show ?thesis unfolding v f using "11.IH"(2) [OF r] "11.prems"(2,3) unfolding v by simp
  qed
next
  case (12 R)
  then show ?case by (simp add: good_nil)
next
  case (13 R childKey child es)
  have cn: "child \<noteq> JNull" using "13.prems"(1) by (auto split: if_splits)
  let ?vs = "visits_object_children R es"
  show ?case
  proof (cases "truthy_opt (jprop child ''id'')")
    case True
    then have hid: "has_id child" by (simp add: has_id_def)
    show ?thesis
    proof (cases "key_of (jprop child ''id'') \<in> R")
      case kin': True
      then have kin: "nkey child \<in> R" by (simp add: nkey_def)
      from "13.prems"(1) True kin' cn obtain res1 where
        r1: "calculateCumulativeCounts child D R res = Some res1"
        and r2: "cc_object_children es D R (c0 + count_or_0 res1 (nkey child)) res1 = Some (cnt, res')"
        by (auto simp: nkey_def Let_def split: option.splits)
      have v: "visits_object_children R ((childKey, child) # es) = visits R child @ ?vs"
        using True kin' by simp
      have d: "distinct (map fst (visits R child @ ?vs))"
        and dj: "fst ` set (visits R child @ ?vs) \<inter> dom res = {}"
        using "13.prems"(2,3) unfolding v by simp_all
      have d1: "distinct (map fst (visits R child))" and d2: "distinct (map fst ?vs)"
        using d by simp_all
      have dj1: "fst ` set (visits R child) \<inter> dom res = {}" using dj by (auto simp: image_Un)
      have g1: "Good D R (visits R child) res res1" by (rule "13.IH"(1) [OF True kin' r1 d1 dj1])
      have dj2: "fst ` set ?vs \<inter> dom res1 = {}" by (rule next_disjoint [OF g1 d dj])
      from "13.IH"(3) [OF r2 d2 dj2]
      have g2: "Good D R ?vs res1 res'"
        and c: "cnt = c0 + count_or_0 res1 (nkey child)
                  + sum_list (map (cumulative D R)
                      (filter (\<lambda>c. has_id c \<and> nkey c \<in> R) (map snd es)))"
        by simp_all
      have "cnt = c0 + sum_list (map (cumulative D R)
                      (filter (\<lambda>c. has_id c \<and> nkey c \<in> R) (map snd ((childKey, child) # es))))"
        unfolding c good_read [OF g1 hid] using hid kin by simp
      with good_seq [OF g1 g2 d] show ?thesis unfolding v by simp
    next
      case nin': False
      then have nf: "\<not> (has_id child \<and> nkey child \<in> R)" by (simp add: nkey_def)
      have v: "visits_object_children R ((childKey, child) # es) = ?vs" using True nin' by auto
      have r: "cc_object_children es D R c0 res = Some (cnt, res')"
        using "13.prems"(1) True nin' cn by (auto simp: Let_def split: if_splits)
      have f: "filter (\<lambda>c. has_id c \<and> nkey c \<in> R) (map snd ((childKey, child) # es))
                = filter (\<lambda>c. has_id c \<and> nkey c \<in> R) (map snd es)"
        using nf by auto
      show ?thesis unfolding v f using "13.IH"(3) [OF r] "13.prems"(2,3) unfolding v by simp
    qed
  next
    case False
    then have nf: "\<not> has_id child" by (simp add: has_id_def)
    show ?thesis
    proof (cases "childKey \<in> R")
      case True
      from "13.prems"(1) False True cn obtain res1 where
        r1: "calculateCumulativeCounts child D R res = Some res1"
        and r2: "cc_object_children es D R (c0 + count_or_0 res1 childKey) res1 = Some (cnt, res')"
        by (auto simp: Let_def split: option.splits)
      let ?v1 = "visits R child @ [(childKey, None)]"
      have v: "visits_object_children R ((childKey, child) # es) = ?v1 @ ?vs"
        using False True by simp
      have d: "distinct (map fst (?v1 @ ?vs))"
        and dj: "fst ` set (?v1 @ ?vs) \<inter> dom res = {}"
        using "13.prems"(2,3) unfolding v by simp_all
      have d1: "distinct (map fst (visits R child))" and d2: "distinct (map fst ?vs)"
        and kf: "childKey \<notin> fst ` set (visits R child)"
        using d by simp_all
      have dj1: "fst ` set (visits R child) \<inter> dom res = {}" and kd: "childKey \<notin> dom res"
        using dj by (auto simp: image_Un)
      have g0: "Good D R (visits R child) res res1" by (rule "13.IH"(2) [OF False True r1 d1 dj1])
      have "childKey \<notin> stored (visits R child)" using kf stored_subset by blast
      with g0 have "res1 childKey = res childKey" by (simp add: Good_def)
      with kd have z: "count_or_0 res1 childKey = 0" by (simp add: count_or_0_def dom_def)
      have g1: "Good D R ?v1 res res1" by (rule good_fallback [OF g0])
      have dj2: "fst ` set ?vs \<inter> dom res1 = {}" by (rule next_disjoint [OF g1 d dj])
      from "13.IH"(3) [OF r2 d2 dj2]
      have g2: "Good D R ?vs res1 res'"
        and c: "cnt = c0 + count_or_0 res1 childKey
                  + sum_list (map (cumulative D R)
                      (filter (\<lambda>c. has_id c \<and> nkey c \<in> R) (map snd es)))"
        by simp_all
      have "cnt = c0 + sum_list (map (cumulative D R)
                      (filter (\<lambda>c. has_id c \<and> nkey c \<in> R) (map snd ((childKey, child) # es))))"
        unfolding c z using nf by simp
      with good_seq [OF g1 g2 d] show ?thesis unfolding v by simp
    next
      case nin: False
      have v: "visits_object_children R ((childKey, child) # es) = ?vs" using False nin by auto
      have r: "cc_object_children es D R c0 res = Some (cnt, res')"
        using "13.prems"(1) False nin cn by (auto simp: Let_def split: if_splits)
      have f: "filter (\<lambda>c. has_id c \<and> nkey c \<in> R) (map snd ((childKey, child) # es))
                = filter (\<lambda>c. has_id c \<and> nkey c \<in> R) (map snd es)"
        using nf by auto
      show ?thesis unfolding v f using "13.IH"(3) [OF r] "13.prems"(2,3) unfolding v by simp
    qed
  qed
qed

lemma reached_nodes_set: "set (reached_nodes R h) = {m. \<exists>k. (k, Some m) \<in> set (visits R h)}"
  by (auto simp: reached_nodes_def split: option.splits)

subsection \<open>Relevant children of a reached node are reached\<close>

lemma closed_nil: "Closed R []"
  by (simp add: Closed_def)

lemma closed_append: "Closed R vs \<Longrightarrow> Closed R ws \<Longrightarrow> Closed R (vs @ ws)"
  unfolding Closed_def by (metis Un_iff set_append)

lemma closed_fallback: "Closed R vs \<Longrightarrow> Closed R (vs @ [(k, None)])"
  unfolding Closed_def by simp

lemma closed_store:
  assumes "Closed R vs" and "\<forall>c \<in> set (relevant_children R m). (nkey c, Some c) \<in> set vs"
  shows "Closed R (vs @ [(k, Some m)])"
  unfolding Closed_def
proof (intro allI impI ballI)
  fix k' m' c
  assume km: "(k', Some m') \<in> set (vs @ [(k, Some m)])" and c: "c \<in> set (relevant_children R m')"
  show "(nkey c, Some c) \<in> set (vs @ [(k, Some m)])"
  proof (cases "(k', Some m') \<in> set vs")
    case True
    with assms(1) c have "(nkey c, Some c) \<in> set vs" unfolding Closed_def by blast
    then show ?thesis by simp
  next
    case False
    with km have "m' = m" by simp
    with assms(2) c show ?thesis by simp
  qed
qed

lemma relevant_children_obj:
  "relevant_children R (JObj ps) =
     filter (\<lambda>c. has_id c \<and> nkey c \<in> R)
       (case map_of ps ''children'' of
          Some (JArr cs) \<Rightarrow> cs
        | Some (JObj es) \<Rightarrow> map snd es
        | _ \<Rightarrow> [])"
  by (simp add: relevant_children_def children_of_def)

lemma visits_closed:
  "Closed R (visits R n)"
  and visits_each_closed: "Closed R (visits_each R ns)"
  and visits_values_closed: "Closed R (visits_values R ps)"
  and visits_array_closed:
    "Closed R (visits_array_children R cs) \<and>
     (\<forall>c \<in> set (filter (\<lambda>c. has_id c \<and> nkey c \<in> R) cs).
        (nkey c, Some c) \<in> set (visits_array_children R cs))"
  and visits_object_closed:
    "Closed R (visits_object_children R es) \<and>
     (\<forall>c \<in> set (filter (\<lambda>c. has_id c \<and> nkey c \<in> R) (map snd es)).
        (nkey c, Some c) \<in> set (visits_object_children R es))"
proof (induction R n and R ns and R ps and R cs and R es
    rule: visits_visits_each_visits_values_visits_array_children_visits_object_children.induct)
  case (5 R ps)
  let ?id = "map_of ps ''id''" and ?ch = "map_of ps ''children''"
  show ?case
  proof (cases "truthy_opt ?id")
    case False
    show ?thesis
    proof (cases "truthy_opt ?ch")
      case True
      then obtain ch where ch: "?ch = Some ch" by (cases ?ch) auto
      from "5.IH"(1) [OF False True ch] show ?thesis using False True ch by simp
    next
      case noch: False
      from "5.IH"(2) [OF False noch] show ?thesis using False noch by simp
    qed
  next
    case True
    let ?k = "key_of ?id"
    have nn: "\<not> \<not> truthy_opt ?id" using True by simp
    consider (arr) cs where "?ch = Some (JArr cs)"
      | (obj) es where "?ch = Some (JObj es)"
      | (other) "\<forall>cs. ?ch \<noteq> Some (JArr cs)" "\<forall>es. ?ch \<noteq> Some (JObj es)"
      by blast
    then show ?thesis
    proof cases
      case arr
      have v: "visits R (JObj ps) = visits_array_children R cs @ [(?k, Some (JObj ps))]"
        using True arr by simp
      have rc: "relevant_children R (JObj ps) = filter (\<lambda>c. has_id c \<and> nkey c \<in> R) cs"
        using arr by (simp add: relevant_children_obj)
      from "5.IH"(3) [OF nn arr refl] show ?thesis unfolding v
        by (intro closed_store) (simp_all add: rc)
    next
      case obj
      have v: "visits R (JObj ps) = visits_object_children R es @ [(?k, Some (JObj ps))]"
        using True obj by simp
      have rc: "relevant_children R (JObj ps)
                  = filter (\<lambda>c. has_id c \<and> nkey c \<in> R) (map snd es)"
        using obj by (simp add: relevant_children_obj)
      from "5.IH"(4) [OF nn obj refl] show ?thesis unfolding v
        by (intro closed_store) (simp_all add: rc)
    next
      case other
      have v: "visits R (JObj ps) = [] @ [(?k, Some (JObj ps))]"
        using True other by (simp split: option.splits json.splits)
      have e: "(case ?ch of Some (JArr cs) \<Rightarrow> cs | Some (JObj es) \<Rightarrow> map snd es | _ \<Rightarrow> []) = []"
        using other by (auto split: option.splits json.splits)
      show ?thesis unfolding v
        by (intro closed_store closed_nil) (simp add: relevant_children_obj e)
    qed
  qed
next
  case (7 R childNode nodes)
  then show ?case by (simp add: closed_append)
next
  case (9 R k childNode ps)
  then show ?case by (auto simp: closed_append)
next
  case (11 R child cs)
  let ?c = "truthy_opt (jprop child ''id'') \<and> key_of (jprop child ''id'') \<in> R"
  show ?case
  proof (cases ?c)
    case True
    then have hid: "has_id child" and kin: "nkey child \<in> R" by (simp_all add: has_id_def nkey_def)
    have v: "visits_array_children R (child # cs) = visits R child @ visits_array_children R cs"
      using True by simp
    have f: "filter (\<lambda>c. has_id c \<and> nkey c \<in> R) (child # cs)
               = child # filter (\<lambda>c. has_id c \<and> nkey c \<in> R) cs"
      using hid kin by simp
    have 1: "Closed R (visits R child)" by (rule "11.IH"(1) [OF True])
    have 2: "(nkey child, Some child) \<in> set (visits R child)" by (rule visits_id_last [OF hid])
    from "11.IH"(2) 1 2 show ?thesis unfolding v f by (auto simp: closed_append)
  next
    case False
    then have nf: "\<not> (has_id child \<and> nkey child \<in> R)" by (simp add: has_id_def nkey_def)
    have v: "visits_array_children R (child # cs) = visits_array_children R cs" using False by auto
    have f: "filter (\<lambda>c. has_id c \<and> nkey c \<in> R) (child # cs)
              = filter (\<lambda>c. has_id c \<and> nkey c \<in> R) cs"
      using nf by auto
    from "11.IH"(2) show ?thesis unfolding v f .
  qed
next
  case (13 R childKey child es)
  let ?vs = "visits_object_children R es"
  show ?case
  proof (cases "truthy_opt (jprop child ''id'')")
    case True
    then have hid: "has_id child" by (simp add: has_id_def)
    show ?thesis
    proof (cases "key_of (jprop child ''id'') \<in> R")
      case kin': True
      then have kin: "nkey child \<in> R" by (simp add: nkey_def)
      have v: "visits_object_children R ((childKey, child) # es) = visits R child @ ?vs"
        using True kin' by simp
      have f: "filter (\<lambda>c. has_id c \<and> nkey c \<in> R) (map snd ((childKey, child) # es))
                 = child # filter (\<lambda>c. has_id c \<and> nkey c \<in> R) (map snd es)"
        using hid kin by simp
      have 1: "Closed R (visits R child)" by (rule "13.IH"(1) [OF True kin'])
      have 2: "(nkey child, Some child) \<in> set (visits R child)" by (rule visits_id_last [OF hid])
      from "13.IH"(3) 1 2 show ?thesis unfolding v f by (auto simp: closed_append)
    next
      case nin': False
      then have nf: "\<not> (has_id child \<and> nkey child \<in> R)" by (simp add: nkey_def)
      have v: "visits_object_children R ((childKey, child) # es) = ?vs" using True nin' by auto
      have f: "filter (\<lambda>c. has_id c \<and> nkey c \<in> R) (map snd ((childKey, child) # es))
                = filter (\<lambda>c. has_id c \<and> nkey c \<in> R) (map snd es)"
        using nf by auto
      from "13.IH"(3) show ?thesis unfolding v f .
    qed
  next
    case False
    then have nf: "\<not> has_id child" by (simp add: has_id_def)
    have f: "filter (\<lambda>c. has_id c \<and> nkey c \<in> R) (map snd ((childKey, child) # es))
              = filter (\<lambda>c. has_id c \<and> nkey c \<in> R) (map snd es)"
      using nf by auto
    show ?thesis
    proof (cases "childKey \<in> R")
      case True
      have v: "visits_object_children R ((childKey, child) # es)
                 = (visits R child @ [(childKey, None)]) @ ?vs"
        using False True by simp
      have 1: "Closed R (visits R child @ [(childKey, None)])"
        by (rule closed_fallback [OF "13.IH"(2) [OF False True]])
      from "13.IH"(3) have 2: "Closed R ?vs"
        and 3: "\<forall>c \<in> set (filter (\<lambda>c. has_id c \<and> nkey c \<in> R) (map snd es)).
                  (nkey c, Some c) \<in> set ?vs"
        by simp_all
      have 4: "Closed R ((visits R child @ [(childKey, None)]) @ ?vs)"
        by (rule closed_append [OF 1 2])
      from 3 have 5: "\<forall>c \<in> set (filter (\<lambda>c. has_id c \<and> nkey c \<in> R) (map snd es)).
                  (nkey c, Some c) \<in> set ((visits R child @ [(childKey, None)]) @ ?vs)"
        by simp
      show ?thesis unfolding v f by (rule conjI [OF 4 5])
    next
      case nin: False
      have v: "visits_object_children R ((childKey, child) # es) = ?vs" using False nin by auto
      from "13.IH"(3) show ?thesis unfolding v f .
    qed
  qed
qed (simp_all add: closed_nil)

subsection \<open>The traversal returns on a hierarchy without null\<close>

lemma null_free_map_of: "list_all (\<lambda>e. null_free (snd e)) ps \<Longrightarrow> map_of ps k = Some v \<Longrightarrow> null_free v"
  by (induction ps) (auto split: if_splits)

lemma cc_returns:
  "null_free n \<Longrightarrow> calculateCumulativeCounts n D R res \<noteq> None"
  and cc_each_returns: "list_all null_free ns \<Longrightarrow> cc_each ns D R res \<noteq> None"
  and cc_values_returns:
    "list_all (\<lambda>e. null_free (snd e)) ps \<Longrightarrow> cc_values ps D R res \<noteq> None"
  and cc_array_returns:
    "list_all null_free cs \<Longrightarrow> cc_array_children cs D R c0 res \<noteq> None"
  and cc_object_returns:
    "list_all (\<lambda>e. null_free (snd e)) es \<Longrightarrow> cc_object_children es D R c0 res \<noteq> None"
proof (induction R n and R ns and R ps and R cs and R es
    arbitrary: res and res and res and c0 res and c0 res
    rule: visits_visits_each_visits_values_visits_array_children_visits_object_children.induct)
  case (5 R ps)
  let ?id = "map_of ps ''id''" and ?ch = "map_of ps ''children''"
  have all: "list_all (\<lambda>e. null_free (snd e)) ps" using "5.prems" by simp
  show ?case
  proof (cases "truthy_opt ?id")
    case False
    show ?thesis
    proof (cases "truthy_opt ?ch")
      case True
      then obtain ch where ch: "?ch = Some ch" by (cases ?ch) auto
      have "null_free ch" by (rule null_free_map_of [OF all ch])
      from "5.IH"(1) [OF False True ch this] show ?thesis using False True ch by simp
    next
      case noch: False
      from "5.IH"(2) [OF False noch all] show ?thesis using False noch by simp
    qed
  next
    case True
    have nn: "\<not> \<not> truthy_opt ?id" using True by simp
    consider (arr) cs where "?ch = Some (JArr cs)"
      | (obj) es where "?ch = Some (JObj es)"
      | (other) "\<forall>cs. ?ch \<noteq> Some (JArr cs)" "\<forall>es. ?ch \<noteq> Some (JObj es)"
      by blast
    then show ?thesis
    proof cases
      case arr
      have "null_free (JArr cs)" by (rule null_free_map_of [OF all arr])
      then have "list_all null_free cs" by simp
      from "5.IH"(3) [OF nn arr refl this] show ?thesis
        using True arr by (auto simp: Let_def split: option.splits)
    next
      case obj
      have "null_free (JObj es)" by (rule null_free_map_of [OF all obj])
      then have "list_all (\<lambda>e. null_free (snd e)) es" by simp
      from "5.IH"(4) [OF nn obj refl this] show ?thesis
        using True obj by (auto simp: Let_def split: option.splits)
    next
      case other
      then show ?thesis using True by (auto simp: Let_def split: option.splits json.splits)
    qed
  qed
next
  case (7 R childNode nodes)
  then show ?case by (auto split: option.splits)
next
  case (9 R k childNode ps)
  have nf: "null_free childNode" and rest: "list_all (\<lambda>e. null_free (snd e)) ps"
    using "9.prems" by auto
  show ?case
  proof (cases "truthy childNode \<and> typeof_object childNode")
    case True
    from "9.IH"(1) [OF True nf] obtain res1 where
      "calculateCumulativeCounts childNode D R res = Some res1" by blast
    with "9.IH"(2) [OF rest] True show ?thesis by simp
  next
    case False
    with "9.IH"(2) [OF rest] show ?thesis by auto
  qed
next
  case (11 R child cs)
  have cn: "child \<noteq> JNull" and nf: "null_free child" and rest: "list_all null_free cs"
    using "11.prems" by auto
  show ?case
  proof (cases "truthy_opt (jprop child ''id'') \<and> key_of (jprop child ''id'') \<in> R")
    case True
    from "11.IH"(1) [OF True nf] obtain res1 where
      "calculateCumulativeCounts child D R res = Some res1" by blast
    with "11.IH"(2) [OF rest] True cn show ?thesis by simp
  next
    case False
    with "11.IH"(2) [OF rest] cn show ?thesis by auto
  qed
next
  case (13 R childKey child es)
  have cn: "child \<noteq> JNull" and nf: "null_free child"
    and rest: "list_all (\<lambda>e. null_free (snd e)) es"
    using "13.prems" by auto
  show ?case
  proof (cases "truthy_opt (jprop child ''id'')")
    case True
    show ?thesis
    proof (cases "key_of (jprop child ''id'') \<in> R")
      case kin: True
      from "13.IH"(1) [OF True kin nf] obtain res1 where
        "calculateCumulativeCounts child D R res = Some res1" by blast
      with "13.IH"(3) [OF rest] True kin cn show ?thesis by (simp add: Let_def)
    next
      case False
      with "13.IH"(3) [OF rest] True cn show ?thesis by (simp add: Let_def)
    qed
  next
    case False
    show ?thesis
    proof (cases "childKey \<in> R")
      case True
      from "13.IH"(2) [OF False True nf] obtain res1 where
        "calculateCumulativeCounts child D R res = Some res1" by blast
      with "13.IH"(3) [OF rest] False True cn show ?thesis by (simp add: Let_def)
    next
      case nin: False
      with "13.IH"(3) [OF rest] False cn show ?thesis by (simp add: Let_def)
    qed
  qed
qed simp_all

subsection \<open>The claim about the cumulative counts\<close>

lemma cumulative_table:
  assumes run: "calculateCumulativeCounts h D R Map.empty = Some t"
    and dist: "distinct (met_identifiers R h)"
  shows "Good D R (visits R h) Map.empty t"
  using cc_good [OF run] dist by (simp add: met_identifiers_def)




end
